theory Spec2Isabelle
  imports Complex_Main
begin

section \<open>The grid world of class Robot\<close>

text \<open>
  Python integers are modelled as \<open>int\<close>, the floats of the Q-matrix as \<open>real\<close>
  (ideal arithmetic), a grid position as a pair of integers, and every exception the
  source can raise as a value of \<open>py_error\<close> on the left of a sum.
\<close>

type_synonym position = "int \<times> int"

datatype py_error = IndexError | KeyError | ValueError

text \<open>Subscription of a Python list: negative indices count from the end.\<close>

definition py_nth :: "'a list \<Rightarrow> int \<Rightarrow> py_error + 'a" where
  "py_nth xs i =
     (if 0 \<le> i \<and> i < int (length xs) then Inr (xs ! nat i)
      else if i < 0 \<and> - int (length xs) \<le> i then Inr (xs ! nat (int (length xs) + i))
      else Inl IndexError)"

definition py_set :: "'a list \<Rightarrow> int \<Rightarrow> 'a \<Rightarrow> py_error + 'a list" where
  "py_set xs i v =
     (if 0 \<le> i \<and> i < int (length xs) then Inr (xs[nat i := v])
      else if i < 0 \<and> - int (length xs) \<le> i then Inr (xs[nat (int (length xs) + i) := v])
      else Inl IndexError)"

text \<open>Subscription of a dict raises KeyError on a missing key; \<open>get\<close> takes a default.\<close>

definition dict_item :: "('k \<rightharpoonup> 'v) \<Rightarrow> 'k \<Rightarrow> py_error + 'v" where
  "dict_item m k = (case m k of None \<Rightarrow> Inl KeyError | Some v \<Rightarrow> Inr v)"

definition dict_get :: "('k \<rightharpoonup> 'v) \<Rightarrow> 'k \<Rightarrow> 'v \<Rightarrow> 'v" where
  "dict_get m k d = (case m k of None \<Rightarrow> d | Some v \<Rightarrow> v)"

definition bindE :: "'e + 'a \<Rightarrow> ('a \<Rightarrow> 'e + 'b) \<Rightarrow> 'e + 'b" where
  "bindE m f = (case m of Inl e \<Rightarrow> Inl e | Inr v \<Rightarrow> f v)"

subsection \<open>The attributes set by \<open>__init__\<close>\<close>

definition terrain :: "char list list" where
  "terrain =
     [''WMMLLW'',
      ''WWLMLL'',
      ''MLLMLM'',
      ''MLLLLL'',
      ''MLMLML'',
      ''EWWWWW'']"

definition state_indices :: "position \<rightharpoonup> int" where
  "state_indices =
     map_of (concat (map (\<lambda>i. map (\<lambda>j. ((i, j), i * 6 + j)) [0..5]) [0..5]))"

definition start_state :: position where
  "start_state = (0, 3)"

definition end_state :: position where
  "end_state = (5, 0)"

definition rewards :: "char \<rightharpoonup> int" where
  "rewards = [CHR ''M'' \<mapsto> -300, CHR ''W'' \<mapsto> -500, CHR ''L'' \<mapsto> 10, CHR ''E'' \<mapsto> 1000]"

definition R_matrix :: "int list list" where
  "R_matrix = map (\<lambda>i. map (\<lambda>j. dict_get rewards (terrain ! i ! j) 0) [0..<6]) [0..<6]"

type_synonym qmatrix = "real list list"

definition Q_matrix_init :: qmatrix where
  "Q_matrix_init = map (\<lambda>_. map (\<lambda>_. 0) [0..<4]) [0..<36]"

text \<open>The position a state index is decoded to, as written at each use in the source.\<close>

definition decode :: "int \<Rightarrow> position" where
  "decode state_index = (state_index div 6, state_index mod 6)"

text \<open>\<open>self.R_matrix[p[0]][p[1]]\<close>\<close>

definition R_at :: "position \<Rightarrow> py_error + int" where
  "R_at p = bindE (py_nth R_matrix (fst p)) (\<lambda>row. py_nth row (snd p))"

subsection \<open>Transitions on state indices\<close>

definition get_next_state :: "int \<Rightarrow> int \<Rightarrow> int" where
  "get_next_state state_index action_index =
     (let row = state_index div 6; col = state_index mod 6;
          (row, col) =
            (if action_index = 0 then (row - 1, col)
             else if action_index = 1 then (row + 1, col)
             else if action_index = 2 then (row, col - 1)
             else if action_index = 3 then (row, col + 1)
             else (row, col))
      in dict_get state_indices (row, col) state_index)"

definition get_possible_actions :: "int \<Rightarrow> int list" where
  "get_possible_actions state_index =
     (let row = state_index div 6; col = state_index mod 6
      in (if row > 0 then [0] else []) @
         (if row < 5 then [1] else []) @
         (if col > 0 then [2] else []) @
         (if col < 5 then [3] else []))"

subsection \<open>The random source\<close>

text \<open>
  The source draws from the process-wide generator of Python's \<open>random\<close> module. It is
  represented by the infinite tape of the natural numbers it will deliver; a call consumes
  the head of the tape. \<open>random.uniform(a, b)\<close> is \<open>a + (b - a) * random()\<close> with
  \<open>random()\<close> a multiple of \<open>2 ^ -53\<close> in \<open>[0, 1)\<close>, and \<open>random.choice(seq)\<close>
  subscripts \<open>seq\<close> with an index below its length, raising IndexError when it is empty.
\<close>

type_synonym rng = "nat \<Rightarrow> nat"

definition next_draw :: "rng \<Rightarrow> nat \<times> rng" where
  "next_draw g = (g 0, \<lambda>i. g (Suc i))"

definition random_uniform :: "real \<Rightarrow> real \<Rightarrow> rng \<Rightarrow> real \<times> rng" where
  "random_uniform a b g =
     (let (k, g') = next_draw g in (a + (b - a) * (real (k mod 2 ^ 53) / 2 ^ 53), g'))"

definition random_choice :: "'a list \<Rightarrow> rng \<Rightarrow> py_error + ('a \<times> rng)" where
  "random_choice seq g =
     (if seq = [] then Inl IndexError
      else let (k, g') = next_draw g in Inr (seq ! (k mod length seq), g'))"

subsection \<open>Monte Carlo exploration\<close>

definition mc_actions :: "(string \<times> (int \<times> int)) list" where
  "mc_actions = [(''up'', (-1, 0)), (''down'', (1, 0)), (''left'', (0, -1)), (''right'', (0, 1))]"

text \<open>The list \<open>possible_actions\<close> built by the loop of \<open>get_next_state_mc\<close>.\<close>

definition mc_possible_actions :: "position \<Rightarrow> string list" where
  "mc_possible_actions current_state =
     (let (row, col) = current_state
      in map fst (filter (\<lambda>(action, (dr, dc)).
                    0 \<le> row + dr \<and> row + dr < 6 \<and> 0 \<le> col + dc \<and> col + dc < 6) mc_actions))"

definition get_next_state_mc :: "position \<Rightarrow> rng \<Rightarrow> py_error + (position \<times> rng)" where
  "get_next_state_mc current_state g =
     (let (row, col) = current_state;
          possible_actions = mc_possible_actions current_state
      in if possible_actions \<noteq> [] then
           bindE (random_choice possible_actions g) (\<lambda>(chosen_action, g').
           bindE (dict_item (map_of mc_actions) chosen_action) (\<lambda>(dr, dc).
           Inr ((row + dr, col + dc), g')))
         else Inr (current_state, g))"

text \<open>
  The inner \<open>while\<close> loop of one simulation. It has no step bound, so it is a partial
  function: \<open>None\<close> means that the walk never reaches the end state.
\<close>

partial_function (option) mc_walk ::
  "position \<Rightarrow> int \<Rightarrow> position list \<Rightarrow> rng \<Rightarrow> (py_error + (int \<times> position list \<times> rng)) option"
where
  "mc_walk current_state total_reward route g =
     (if current_state \<noteq> end_state then
        (case get_next_state_mc current_state g of
           Inl e \<Rightarrow> Some (Inl e)
         | Inr (next_state, g') \<Rightarrow>
             (case R_at next_state of
                Inl e \<Rightarrow> Some (Inl e)
              | Inr r \<Rightarrow>
                  if next_state = end_state
                  then Some (Inr (total_reward + r, route @ [next_state], g'))
                  else mc_walk next_state (total_reward + r) (route @ [next_state]) g'))
      else Some (Inr (total_reward, route, g)))"

text \<open>\<open>highest_reward\<close> is \<open>float('-inf')\<close> until a walk has been kept.\<close>

datatype hreward = NegInf | Reward int

fun exceeds :: "int \<Rightarrow> hreward \<Rightarrow> bool" where
  "exceeds total_reward NegInf = True"
| "exceeds total_reward (Reward h) = (total_reward > h)"

text \<open>The \<open>for\<close> loop over the simulations, with the number of iterations left.\<close>

primrec mc_simulations ::
  "nat \<Rightarrow> position list option \<Rightarrow> hreward \<Rightarrow> rng \<Rightarrow>
   (py_error + (position list option \<times> hreward \<times> rng)) option"
where
  "mc_simulations 0 best_route highest_reward g = Some (Inr (best_route, highest_reward, g))"
| "mc_simulations (Suc n) best_route highest_reward g =
     (case mc_walk start_state 0 [start_state] g of
        None \<Rightarrow> None
      | Some (Inl e) \<Rightarrow> Some (Inl e)
      | Some (Inr (total_reward, route, g')) \<Rightarrow>
          if exceeds total_reward highest_reward
          then mc_simulations n (Some route) (Reward total_reward) g'
          else mc_simulations n best_route highest_reward g')"

definition monte_carlo_exploration ::
  "int \<Rightarrow> rng \<Rightarrow> (py_error + (position list option \<times> hreward \<times> rng)) option" where
  "monte_carlo_exploration num_simulations g = mc_simulations (nat num_simulations) None NegInf g"

subsection \<open>Epsilon-greedy selection and the training loop\<close>

text \<open>The builtin \<open>max\<close>: ValueError on an empty list, else the first greatest item.\<close>

definition py_max :: "'a::ord list \<Rightarrow> py_error + 'a" where
  "py_max xs =
     (case xs of
        [] \<Rightarrow> Inl ValueError
      | x # ys \<Rightarrow> Inr (fold (\<lambda>item m. if item > m then item else m) ys x))"

definition get_next_state_eg ::
  "qmatrix \<Rightarrow> int \<Rightarrow> real \<Rightarrow> rng \<Rightarrow> py_error + (int \<times> int \<times> rng)" where
  "get_next_state_eg Q state_index epsilon g =
     (let (u, g1) = random_uniform 0 1 g
      in bindE
           (if u < epsilon then random_choice [0, 1, 2, 3] g1
            else
              bindE (py_nth Q state_index) (\<lambda>q_row.
              bindE (py_max q_row) (\<lambda>max_q_value.
              let best_actions =
                    [int action. (action, q) \<leftarrow> enumerate 0 q_row, q = max_q_value]
              in random_choice (if best_actions \<noteq> [] then best_actions else [0, 1, 2, 3]) g1)))
           (\<lambda>(action_index, g2).
              Inr (get_next_state state_index action_index, action_index, g2)))"

text \<open>One pass through the body of the step loop of \<open>q_learning\<close>, after the end test.\<close>

definition q_step ::
  "qmatrix \<Rightarrow> int \<Rightarrow> real \<Rightarrow> real \<Rightarrow> real \<Rightarrow> rng \<Rightarrow> py_error + (qmatrix \<times> int \<times> rng)" where
  "q_step Q current_state_index epsilon alpha gamma g =
     bindE (get_next_state_eg Q current_state_index epsilon g)
       (\<lambda>(next_state_index, action_index, g').
     let row = next_state_index div 6; col = next_state_index mod 6 in
     bindE (R_at (row, col)) (\<lambda>reward.
     bindE (py_nth Q next_state_index) (\<lambda>next_q_values.
     bindE (if next_q_values \<noteq> [] then py_max next_q_values else Inr 0) (\<lambda>max_next_q_value.
     bindE (py_nth Q current_state_index) (\<lambda>current_row.
     bindE (py_nth current_row action_index) (\<lambda>current_q_value.
     bindE (py_nth Q current_state_index) (\<lambda>target_row.
     bindE (py_nth target_row action_index) (\<lambda>old.
     bindE (py_set target_row action_index
              (old + alpha * (of_int reward + gamma * max_next_q_value - current_q_value)))
       (\<lambda>target_row'.
     bindE (py_set Q current_state_index target_row') (\<lambda>Q'.
     Inr (Q', next_state_index, g')))))))))))"

primrec q_steps ::
  "nat \<Rightarrow> int \<Rightarrow> qmatrix \<Rightarrow> int \<Rightarrow> real \<Rightarrow> real \<Rightarrow> real \<Rightarrow> rng \<Rightarrow>
   py_error + (qmatrix \<times> int \<times> rng)"
where
  "q_steps 0 end_state_index Q current_state_index epsilon alpha gamma g =
     Inr (Q, current_state_index, g)"
| "q_steps (Suc n) end_state_index Q current_state_index epsilon alpha gamma g =
     (if current_state_index = end_state_index then Inr (Q, current_state_index, g)
      else
        (case q_step Q current_state_index epsilon alpha gamma g of
           Inl e \<Rightarrow> Inl e
         | Inr (Q', next_state_index, g') \<Rightarrow>
             q_steps n end_state_index Q' next_state_index epsilon alpha gamma g'))"

primrec q_episodes ::
  "nat \<Rightarrow> int \<Rightarrow> real \<Rightarrow> real \<Rightarrow> real \<Rightarrow> int \<Rightarrow> qmatrix \<Rightarrow> rng \<Rightarrow> py_error + (qmatrix \<times> rng)"
where
  "q_episodes 0 end_state_index epsilon alpha gamma max_steps Q g = Inr (Q, g)"
| "q_episodes (Suc n) end_state_index epsilon alpha gamma max_steps Q g =
     (case random_choice [state \<leftarrow> [0..35]. state \<noteq> end_state_index] g of
        Inl e \<Rightarrow> Inl e
      | Inr (current_state_index, g1) \<Rightarrow>
          (case q_steps (nat max_steps) end_state_index Q current_state_index epsilon alpha gamma g1 of
             Inl e \<Rightarrow> Inl e
           | Inr (Q', _, g2) \<Rightarrow>
               q_episodes n end_state_index epsilon alpha gamma max_steps Q' g2))"

definition q_learning ::
  "int \<Rightarrow> real \<Rightarrow> real \<Rightarrow> real \<Rightarrow> int \<Rightarrow> qmatrix \<Rightarrow> rng \<Rightarrow> py_error + (qmatrix \<times> rng)" where
  "q_learning num_episodes epsilon alpha gamma max_steps Q g =
     bindE (dict_item state_indices end_state) (\<lambda>end_state_index.
     q_episodes (nat num_episodes) end_state_index epsilon alpha gamma max_steps Q g)"

subsection \<open>The greedy path\<close>

record greedy_state =
  current_state_index :: int
  path :: "position list"
  total_reward :: int
  stdout :: "string list"

datatype 'a ctl = Break 'a | Next 'a

text \<open>The keys of \<open>max(..., key=...)\<close>, computed item by item; the first failure is raised.\<close>

primrec keyed :: "('a \<Rightarrow> py_error + 'k) \<Rightarrow> 'a list \<Rightarrow> py_error + ('a \<times> 'k) list" where
  "keyed f [] = Inr []"
| "keyed f (x # xs) =
     (case f x of
        Inl e \<Rightarrow> Inl e
      | Inr k \<Rightarrow> (case keyed f xs of Inl e \<Rightarrow> Inl e | Inr ks \<Rightarrow> Inr ((x, k) # ks)))"

definition py_max_by :: "('a \<times> 'k::ord) list \<Rightarrow> py_error + 'a" where
  "py_max_by ks =
     (case ks of
        [] \<Rightarrow> Inl ValueError
      | x # ys \<Rightarrow> Inr (fst (fold (\<lambda>item m. if snd item > snd m then item else m) ys x)))"

text \<open>
  The body of the \<open>while\<close> loop of \<open>greedy_path\<close> from the test of \<open>possible_actions\<close>
  on, given the row \<open>q_values\<close> and the list \<open>possible_actions\<close> computed before it.
\<close>

definition greedy_iter ::
  "real list \<Rightarrow> (int \<times> int) list \<Rightarrow> greedy_state \<Rightarrow> py_error + greedy_state ctl" where
  "greedy_iter q_values possible_actions st =
     (if possible_actions = [] then
        Inr (Break (st\<lparr>stdout := stdout st @ [''No unvisited actions available, breaking out.'']\<rparr>))
      else
        bindE (keyed (\<lambda>action. py_nth q_values (fst action)) possible_actions) (\<lambda>ks.
        bindE (py_max_by ks) (\<lambda>(best_action, best_next_state_index).
        let next_state = (best_next_state_index div 6, best_next_state_index mod 6) in
        bindE (R_at next_state) (\<lambda>r.
        Inr (Next \<lparr>current_state_index = best_next_state_index,
                   path = path st @ [next_state],
                   total_reward = total_reward st + r,
                   stdout = stdout st\<rparr>)))))"

text \<open>
  One pass through the body of the loop. \<open>self.get_possible_actions\<close> is looked up on the
  object at each call; it is the parameter \<open>possible\<close>, which \<open>greedy_path\<close> sets to the
  method of the class.
\<close>

definition greedy_body ::
  "(int \<Rightarrow> int list) \<Rightarrow> qmatrix \<Rightarrow> greedy_state \<Rightarrow> py_error + greedy_state ctl" where
  "greedy_body possible Q st =
     bindE (py_nth Q (current_state_index st)) (\<lambda>q_values.
     greedy_iter q_values
       (map (\<lambda>action. (action, get_next_state (current_state_index st) action))
          (possible (current_state_index st))) st)"

text \<open>
  The loop itself. It has no step bound: \<open>None\<close> means that it never reaches the end
  state.
\<close>

partial_function (option) greedy_loop ::
  "(int \<Rightarrow> int list) \<Rightarrow> qmatrix \<Rightarrow> greedy_state \<Rightarrow> (py_error + greedy_state) option"
where
  "greedy_loop possible Q st =
     (case dict_item state_indices end_state of
        Inl e \<Rightarrow> Some (Inl e)
      | Inr end_state_index \<Rightarrow>
          if current_state_index st \<noteq> end_state_index then
            (case greedy_body possible Q st of
               Inl e \<Rightarrow> Some (Inl e)
             | Inr (Break st') \<Rightarrow> Some (Inr st')
             | Inr (Next st') \<Rightarrow> greedy_loop possible Q st')
          else Some (Inr st))"

definition greedy_path_with ::
  "(int \<Rightarrow> int list) \<Rightarrow> qmatrix \<Rightarrow> (py_error + ((position list \<times> int) \<times> string list)) option" where
  "greedy_path_with possible Q =
     (case dict_item state_indices start_state of
        Inl e \<Rightarrow> Some (Inl e)
      | Inr start_state_index \<Rightarrow>
          (case greedy_loop possible Q
                  \<lparr>current_state_index = start_state_index, path = [start_state],
                   total_reward = 0, stdout = []\<rparr> of
             None \<Rightarrow> None
           | Some (Inl e) \<Rightarrow> Some (Inl e)
           | Some (Inr st) \<Rightarrow> Some (Inr ((path st, total_reward st), stdout st))))"

definition greedy_path ::
  "qmatrix \<Rightarrow> (py_error + ((position list \<times> int) \<times> string list)) option" where
  "greedy_path Q = greedy_path_with get_possible_actions Q"

section \<open>Notions used to state the properties\<close>

definition in_grid :: "position \<Rightarrow> bool" where
  "in_grid p = (0 \<le> fst p \<and> fst p \<le> 5 \<and> 0 \<le> snd p \<and> snd p \<le> 5)"

text \<open>
  The move of the bounds rule in the words of the specification: up decrements the row,
  down increments it, left decrements the column, right increments it.
\<close>

definition spec_move :: "position \<Rightarrow> int \<Rightarrow> position" where
  "spec_move p a =
     (if a = 0 then (fst p - 1, snd p)
      else if a = 1 then (fst p + 1, snd p)
      else if a = 2 then (fst p, snd p - 1)
      else (fst p, snd p + 1))"

text \<open>A Q-matrix of the shape \<open>__init__\<close> builds: 36 rows of 4 values.\<close>

definition wf_Q :: "qmatrix \<Rightarrow> bool" where
  "wf_Q Q = (length Q = 36 \<and> list_all (\<lambda>q_row. length q_row = 4) Q)"

text \<open>The reward of a cell of the grid.\<close>

definition cell_reward :: "position \<Rightarrow> int" where
  "cell_reward p = R_matrix ! nat (fst p) ! nat (snd p)"

text \<open>The order on \<open>highest_reward\<close>: minus infinity lies below every total.\<close>

fun hreward_le :: "hreward \<Rightarrow> hreward \<Rightarrow> bool" where
  "hreward_le NegInf h = True"
| "hreward_le (Reward a) NegInf = False"
| "hreward_le (Reward a) (Reward b) = (a \<le> b)"

text \<open>
  The totals and routes of the first \<open>n\<close> walks made from a tape, one after the other,
  with the tape left over; \<open>None\<close> when one of them does not reach the end state.
\<close>

primrec mc_walks :: "nat \<Rightarrow> rng \<Rightarrow> ((int \<times> position list) list \<times> rng) option" where
  "mc_walks 0 g = Some ([], g)"
| "mc_walks (Suc n) g =
     (case mc_walk start_state 0 [start_state] g of
        Some (Inr (t, r, g')) \<Rightarrow>
          (case mc_walks n g' of Some (ws, g'') \<Rightarrow> Some ((t, r) # ws, g'') | None \<Rightarrow> None)
      | _ \<Rightarrow> None)"


text \<open>The tape that delivers the numbers of a list and then 0 for ever.\<close>

definition tape_of :: "nat list \<Rightarrow> rng" where
  "tape_of ks = (\<lambda>i. if i < length ks then ks ! i else 0)"

text \<open>
  A tape for three walks: along the left column by way of (1, 1) and (2, 1), straight
  along the top row and the left column, and by way of (1, 1) alone.
\<close>

definition tape3 :: rng where
  "tape3 = tape_of [13, 13, 13, 12, 14, 13, 14, 13, 13, 13,
                    13, 13, 13, 12, 13, 13, 13, 13,
                    13, 13, 12, 14, 13, 13, 13, 13]"

text \<open>A table with the values 20, 5, 0, 0 at state 3 and 4, 0, 0, 0 at state 9.\<close>

definition Q_example :: qmatrix where
  "Q_example = Q_matrix_init[3 := [20, 5, 0, 0], 9 := [4, 0, 0, 0]]"

text \<open>A tape that delivers 4 at every draw.\<close>

definition tape4 :: rng where
  "tape4 = (\<lambda>_. 4)"

section \<open>Properties of the indexing\<close>

lemma map_of_row:
  "map_of (map (\<lambda>j. ((i, j), f i j)) js) (r, c) =
     (if r = i \<and> c \<in> set js then Some (f i c) else None)"
  by (induction js) auto

lemma map_of_grid:
  "map_of (concat (map (\<lambda>i. map (\<lambda>j. ((i, j), f i j)) js) is)) (r, c) =
     (if r \<in> set is \<and> c \<in> set js then Some (f r c) else None)"
  by (induction "is") (auto simp: map_of_row map_add_def split: option.splits)

lemma state_indices_eq:
  "state_indices (r, c) =
     (if 0 \<le> r \<and> r \<le> 5 \<and> 0 \<le> c \<and> c \<le> 5 then Some (r * 6 + c) else None)"
  unfolding state_indices_def by (simp add: map_of_grid)

lemma index_split:
  assumes "0 \<le> (s::int)" "s \<le> 35"
  obtains r c where "s = r * 6 + c" "0 \<le> r" "r \<le> 5" "0 \<le> c" "c \<le> 5"
proof
  show "s = s div 6 * 6 + s mod 6" by simp
  show "0 \<le> s div 6" "s div 6 \<le> 5" "0 \<le> s mod 6" "s mod 6 \<le> 5" using assms by simp_all
qed

lemma decode_encode: "0 \<le> c \<Longrightarrow> c \<le> 5 \<Longrightarrow> decode (r * 6 + c) = (r, c)"
  by (simp add: decode_def)

lemma get_next_state_rc:
  assumes "0 \<le> c" "c \<le> 5"
  shows "get_next_state (r * 6 + c) a =
    (if a = 0 then (if 1 \<le> r \<and> r \<le> 6 then (r - 1) * 6 + c else r * 6 + c)
     else if a = 1 then (if -1 \<le> r \<and> r \<le> 4 then (r + 1) * 6 + c else r * 6 + c)
     else if a = 2 then (if 0 \<le> r \<and> r \<le> 5 \<and> 1 \<le> c then r * 6 + (c - 1) else r * 6 + c)
     else if a = 3 then (if 0 \<le> r \<and> r \<le> 5 \<and> c \<le> 4 then r * 6 + (c + 1) else r * 6 + c)
     else r * 6 + c)"
proof -
  have d: "(r * 6 + c) div 6 = r" "(r * 6 + c) mod 6 = c" using assms by simp_all
  consider "a = 0" | "a = 1" | "a = 2" | "a = 3" | "a \<noteq> 0 \<and> a \<noteq> 1 \<and> a \<noteq> 2 \<and> a \<noteq> 3" by blast
  then show ?thesis
    using assms by cases (auto simp add: get_next_state_def d dict_get_def state_indices_eq)
qed

lemma get_possible_actions_rc:
  assumes "0 \<le> c" "c \<le> 5"
  shows "get_possible_actions (r * 6 + c) =
     (if r > 0 then [0] else []) @ (if r < 5 then [1] else []) @
     (if c > 0 then [2] else []) @ (if c < 5 then [3] else [])"
proof -
  have d: "(r * 6 + c) div 6 = r" "(r * 6 + c) mod 6 = c" using assms by simp_all
  show ?thesis unfolding get_possible_actions_def Let_def d by simp
qed

lemma decode_get_next_state_rc:
  assumes "0 \<le> c" "c \<le> 5"
  shows "decode (get_next_state (r * 6 + c) a) =
    (if a = 0 \<and> 1 \<le> r \<and> r \<le> 6 then (r - 1, c)
     else if a = 1 \<and> -1 \<le> r \<and> r \<le> 4 then (r + 1, c)
     else if a = 2 \<and> 0 \<le> r \<and> r \<le> 5 \<and> 1 \<le> c then (r, c - 1)
     else if a = 3 \<and> 0 \<le> r \<and> r \<le> 5 \<and> c \<le> 4 then (r, c + 1)
     else (r, c))"
  using assms unfolding get_next_state_rc[OF assms]
  by (simp add: decode_encode del: left_diff_distrib_numeral distrib_right_numeral)

lemma get_next_state_range:
  assumes "0 \<le> s" "s \<le> 35"
  shows "0 \<le> get_next_state s a \<and> get_next_state s a \<le> 35"
proof -
  from assms obtain r c where rc: "s = r * 6 + c" "0 \<le> r" "r \<le> 5" "0 \<le> c" "c \<le> 5"
    by (rule index_split)
  then show ?thesis by (simp add: get_next_state_rc)
qed

text \<open>
  Claim C2. The state indexing is a bijection between the positions of the grid and the
  indices 0 to 35: every position (row, col) of the grid has the index row * 6 + col, which
  decodes to (row, col) again, and every index from 0 to 35 decodes to a position of the
  grid whose index it is.
\<close>

theorem state_index_bijection:
  "(0 \<le> row \<and> row \<le> 5 \<and> 0 \<le> col \<and> col \<le> 5 \<longrightarrow>
      state_indices (row, col) = Some (row * 6 + col) \<and>
      0 \<le> row * 6 + col \<and> row * 6 + col \<le> 35 \<and>
      decode (row * 6 + col) = (row, col)) \<and>
   (0 \<le> i \<and> i \<le> 35 \<longrightarrow> in_grid (decode i) \<and> state_indices (decode i) = Some i)"
proof (intro conjI impI)
  assume "0 \<le> row \<and> row \<le> 5 \<and> 0 \<le> col \<and> col \<le> 5"
  then show "state_indices (row, col) = Some (row * 6 + col)"
    and "0 \<le> row * 6 + col" and "row * 6 + col \<le> 35"
    and "decode (row * 6 + col) = (row, col)"
    by (simp_all add: state_indices_eq decode_encode)
next
  assume "0 \<le> i \<and> i \<le> 35"
  then obtain r c where rc: "i = r * 6 + c" "0 \<le> r" "r \<le> 5" "0 \<le> c" "c \<le> 5"
    using index_split by blast
  then show "in_grid (decode i)" and "state_indices (decode i) = Some i"
    by (simp_all add: decode_encode in_grid_def state_indices_eq)
qed

theorem state_index_bijection_witness:
  "state_indices (2, 3) = Some 15 \<and> decode 15 = (2, 3) \<and>
   in_grid (decode 35) \<and> state_indices (decode 35) = Some 35"
  using state_index_bijection [of 2 3 35] by simp

text \<open>
  Claim C3. For every state index from 0 to 35 and every action index among 0 (up),
  1 (down), 2 (left) and 3 (right), the state returned by the transition function decodes
  to a position of the grid; when the moved-to position lies outside the grid the returned
  index is the input index, and otherwise it is the index of the moved-to position.
\<close>

theorem get_next_state_bounded:
  assumes "0 \<le> s" "s \<le> 35" "a \<in> {0, 1, 2, 3}"
  shows "in_grid (decode (get_next_state s a)) \<and>
         (\<not> in_grid (spec_move (decode s) a) \<longrightarrow> get_next_state s a = s) \<and>
         (in_grid (spec_move (decode s) a) \<longrightarrow>
            decode (get_next_state s a) = spec_move (decode s) a)"
proof -
  from assms(1,2) obtain r c where rc: "s = r * 6 + c" "0 \<le> r" "r \<le> 5" "0 \<le> c" "c \<le> 5"
    by (rule index_split)
  have d: "decode s = (r, c)" using rc by (simp add: decode_encode)
  have 1: "in_grid (decode (get_next_state s a))"
    using rc by (simp add: decode_get_next_state_rc in_grid_def)
  have 2: "get_next_state s a = s" if "\<not> in_grid (spec_move (decode s) a)"
    using that rc assms(3) unfolding d by (auto simp add: get_next_state_rc in_grid_def spec_move_def)
  have 3: "decode (get_next_state s a) = spec_move (decode s) a"
    if "in_grid (spec_move (decode s) a)"
    using that rc assms(3) unfolding d
    by (auto simp add: decode_get_next_state_rc in_grid_def spec_move_def)
  from 1 2 3 show ?thesis by blast
qed

theorem get_next_state_bounded_witness:
  "get_next_state 0 0 = 0 \<and> decode (get_next_state 0 1) = (1, 0) \<and>
   in_grid (decode (get_next_state 0 0))"
proof -
  have out: "\<not> in_grid (spec_move (decode 0) 0)"
    and inside: "in_grid (spec_move (decode 0) 1)"
    and moved: "spec_move (decode 0) 1 = (1, 0)"
    by (simp_all add: in_grid_def spec_move_def decode_def)
  have range: "(0::int) \<le> 0" "(0::int) \<le> 35" "(0::int) \<in> {0, 1, 2, 3}" "(1::int) \<in> {0, 1, 2, 3}"
    by simp_all
  from get_next_state_bounded [OF range(1) range(2) range(3)] out
  have "get_next_state 0 0 = 0 \<and> in_grid (decode (get_next_state 0 0))" by blast
  moreover from get_next_state_bounded [OF range(1) range(2) range(4)] inside moved
  have "decode (get_next_state 0 1) = (1, 0)" by simp
  ultimately show ?thesis by blast
qed

section \<open>Properties of Monte Carlo exploration\<close>

lemma R_matrix_shape: "length R_matrix = 6" "\<forall>row \<in> set R_matrix. length row = 6"
  by (simp_all add: R_matrix_def)

lemma R_matrix_val: "R_matrix = [[-500,-300,-300,10,10,-500],[-500,-500,10,-300,10,10],[-300,10,10,-300,10,-300],
  [-300,10,10,10,10,10],[-300,10,-300,10,-300,10],[1000,-500,-500,-500,-500,-500]]"
  by (simp add: R_matrix_def terrain_def rewards_def dict_get_def upt_rec)

lemma R_at_in_grid: "in_grid p \<Longrightarrow> R_at p = Inr (cell_reward p)"
  by (auto simp add: in_grid_def R_at_def cell_reward_def py_nth_def bindE_def R_matrix_def)

lemma mc_possible_actions_eq:
  "mc_possible_actions (row, col) =
     (if 1 \<le> row \<and> row < 7 \<and> 0 \<le> col \<and> col < 6 then [''up''] else []) @
     (if -1 \<le> row \<and> row < 5 \<and> 0 \<le> col \<and> col < 6 then [''down''] else []) @
     (if 0 \<le> row \<and> row < 6 \<and> 1 \<le> col \<and> col < 7 then [''left''] else []) @
     (if 0 \<le> row \<and> row < 6 \<and> -1 \<le> col \<and> col < 5 then [''right''] else [])"
  by (simp add: mc_possible_actions_def mc_actions_def)

lemma mc_possible_nonempty: "in_grid p \<Longrightarrow> mc_possible_actions p \<noteq> []"
  by (cases p) (auto simp add: mc_possible_actions_eq in_grid_def)

lemma random_choice_mem:
  "seq \<noteq> [] \<Longrightarrow> \<exists>x. random_choice seq g = Inr (x, snd (next_draw g)) \<and> x \<in> set seq"
  by (simp add: random_choice_def next_draw_def)

lemma mc_actions_lookup:
  "dict_item (map_of mc_actions) ''up'' = Inr (-1, 0)"
  "dict_item (map_of mc_actions) ''down'' = Inr (1, 0)"
  "dict_item (map_of mc_actions) ''left'' = Inr (0, -1)"
  "dict_item (map_of mc_actions) ''right'' = Inr (0, 1)"
  by (simp_all add: dict_item_def mc_actions_def)

lemma mc_possible_actions_step:
  assumes "a \<in> set (mc_possible_actions (row, col))"
  shows "\<exists>dr dc. dict_item (map_of mc_actions) a = Inr (dr, dc) \<and> in_grid (row + dr, col + dc)
          \<and> (dr, dc) \<noteq> (0, 0)"
proof -
  from assms consider
      (up) "a = ''up''" "1 \<le> row \<and> row < 7 \<and> 0 \<le> col \<and> col < 6"
    | (down) "a = ''down''" "-1 \<le> row \<and> row < 5 \<and> 0 \<le> col \<and> col < 6"
    | (left) "a = ''left''" "0 \<le> row \<and> row < 6 \<and> 1 \<le> col \<and> col < 7"
    | (right) "a = ''right''" "0 \<le> row \<and> row < 6 \<and> -1 \<le> col \<and> col < 5"
    unfolding mc_possible_actions_eq set_append by (auto split: if_splits)
  then show ?thesis
  proof cases
    case up
    then show ?thesis by (simp only: mc_actions_lookup) (simp add: in_grid_def)
  next
    case down
    then show ?thesis by (simp only: mc_actions_lookup) (simp add: in_grid_def)
  next
    case left
    then show ?thesis by (simp only: mc_actions_lookup) (simp add: in_grid_def)
  next
    case right
    then show ?thesis by (simp only: mc_actions_lookup) (simp add: in_grid_def)
  qed
qed

lemma get_next_state_mc_in_grid:
  assumes "in_grid p"
  shows "\<exists>p'. get_next_state_mc p g = Inr (p', snd (next_draw g)) \<and> in_grid p' \<and> p' \<noteq> p"
proof -
  obtain row col where p: "p = (row, col)" by (cases p)
  from assms have ne: "mc_possible_actions p \<noteq> []" by (rule mc_possible_nonempty)
  from random_choice_mem[OF ne] obtain a where
    a: "random_choice (mc_possible_actions p) g = Inr (a, snd (next_draw g))"
       "a \<in> set (mc_possible_actions p)" by blast
  from mc_possible_actions_step[OF a(2)[unfolded p]] obtain dr dc where
    d: "dict_item (map_of mc_actions) a = Inr (dr, dc)" "in_grid (row + dr, col + dc)" "(dr, dc) \<noteq> (0, 0)"
    by blast
  have "get_next_state_mc p g = Inr ((row + dr, col + dc), snd (next_draw g))"
    using ne a(1) d(1) by (simp add: get_next_state_mc_def p bindE_def)
  with d show ?thesis by (auto simp: p)
qed

lemma mc_walk_inv:
  assumes run: "mc_walk cur tot route g = Some res"
      and grid: "in_grid cur"
  shows "\<exists>t ext g'. res = Inr (t, route @ ext, g') \<and> list_all in_grid ext
           \<and> t = tot + sum_list (map cell_reward ext) \<and> last (cur # ext) = end_state"
proof -
  let ?P = "\<lambda>cur tot route (g::rng) res. in_grid cur \<longrightarrow>
      (\<exists>t ext g'. res = Inr (t, route @ ext, g') \<and> list_all in_grid ext
           \<and> t = tot + sum_list (map cell_reward ext) \<and> last (cur # ext) = end_state)"
  have "?P cur tot route g res"
  proof (rule mc_walk.raw_induct[where P = ?P, OF _ run], rule impI)
    fix walk cur tot route g res
    assume IH: "\<And>cur tot route g res. walk cur tot route g = Some res \<Longrightarrow> ?P cur tot route g res"
      and step: "(if cur \<noteq> end_state
      then case get_next_state_mc cur g of Inl e \<Rightarrow> Some (Inl e)
           | Inr (next_state, g') \<Rightarrow>
               case R_at next_state of Inl e \<Rightarrow> Some (Inl e)
               | Inr r \<Rightarrow>
                   if next_state = end_state
                   then Some (Inr (tot + r, route @ [next_state], g'))
                   else walk next_state (tot + r) (route @ [next_state]) g'
      else Some (Inr (tot, route, g))) = Some res"
      and grid: "in_grid cur"
    show "\<exists>t ext g'. res = Inr (t, route @ ext, g') \<and> list_all in_grid ext
           \<and> t = tot + sum_list (map cell_reward ext) \<and> last (cur # ext) = end_state"
    proof (cases "cur = end_state")
      case True
      with step show ?thesis
        by (intro exI[of _ tot] exI[of _ "[]"] exI[of _ g]) auto
    next
      case False
      from get_next_state_mc_in_grid[OF grid] obtain p' where
        p': "get_next_state_mc cur g = Inr (p', snd (next_draw g))" "in_grid p'" "p' \<noteq> cur" by blast
      note r = R_at_in_grid[OF p'(2)]
      show ?thesis
      proof (cases "p' = end_state")
        case True
        with step False p' r show ?thesis
          by (intro exI[of _ "tot + cell_reward p'"] exI[of _ "[p']"] exI[of _ "snd (next_draw g)"]) auto
      next
        case F2: False
        with step False p' r have
          "walk p' (tot + cell_reward p') (route @ [p']) (snd (next_draw g)) = Some res" by simp
        from IH[OF this] p'(2) obtain t ext g' where
          "res = Inr (t, (route @ [p']) @ ext, g')" "list_all in_grid ext"
          "t = tot + cell_reward p' + sum_list (map cell_reward ext)" "last (p' # ext) = end_state"
          by blast
        then show ?thesis using p'(2)
          by (intro exI[of _ t] exI[of _ "p' # ext"] exI[of _ g']) simp
      qed
    qed
  qed
  with grid show ?thesis by blast
qed

lemma mc_simulations_first_max:
  assumes "mc_walks n g = Some (ws, g')"
  shows "((\<forall>w\<in>set ws. \<not> exceeds (fst w) hi) \<and>
            mc_simulations n best hi g = Some (Inr (best, hi, g'))) \<or>
         (\<exists>pre t r post. ws = pre @ (t, r) # post \<and> exceeds t hi \<and>
            (\<forall>w\<in>set pre. fst w < t) \<and> (\<forall>w\<in>set post. fst w \<le> t) \<and>
            mc_simulations n best hi g = Some (Inr (Some r, Reward t, g')))"
  using assms
proof (induction n arbitrary: g ws best hi)
  case 0
  then show ?case by simp
next
  case (Suc n)
  from Suc.prems obtain t r g1 ws' where
    w: "mc_walk start_state 0 [start_state] g = Some (Inr (t, r, g1))"
    and rest: "mc_walks n g1 = Some (ws', g')" and ws: "ws = (t, r) # ws'"
    by (auto split: option.splits sum.splits)
  show ?case
  proof (cases "exceeds t hi")
    case True
    from Suc.IH[OF rest, of "Reward t" "Some r"] show ?thesis
    proof
      assume "(\<forall>w\<in>set ws'. \<not> exceeds (fst w) (Reward t)) \<and>
         mc_simulations n (Some r) (Reward t) g1 = Some (Inr (Some r, Reward t, g'))"
      then have "ws = [] @ (t, r) # ws'" "\<forall>w\<in>set ws'. fst w \<le> t"
        "mc_simulations (Suc n) best hi g = Some (Inr (Some r, Reward t, g'))"
        using w True ws by auto
      with True show ?thesis by (metis empty_iff list.set(1))
    next
      assume "\<exists>pre t' r' post. ws' = pre @ (t', r') # post \<and> exceeds t' (Reward t) \<and>
            (\<forall>w\<in>set pre. fst w < t') \<and> (\<forall>w\<in>set post. fst w \<le> t') \<and>
            mc_simulations n (Some r) (Reward t) g1 = Some (Inr (Some r', Reward t', g'))"
      then obtain pre t' r' post where p: "ws' = pre @ (t', r') # post" "t < t'"
            "\<forall>w\<in>set pre. fst w < t'" "\<forall>w\<in>set post. fst w \<le> t'"
            "mc_simulations n (Some r) (Reward t) g1 = Some (Inr (Some r', Reward t', g'))"
        by auto
      have "exceeds t' hi" using True p(2) by (cases hi) auto
      moreover have "ws = ((t, r) # pre) @ (t', r') # post" using ws p(1) by simp
      moreover have "\<forall>w\<in>set ((t, r) # pre). fst w < t'" using p(2,3) by simp
      moreover have "mc_simulations (Suc n) best hi g = Some (Inr (Some r', Reward t', g'))"
        using w True p(5) by simp
      ultimately show ?thesis using p(4) by blast
    qed
  next
    case False
    then obtain h where hi: "hi = Reward h" "t \<le> h" by (cases hi) auto
    from Suc.IH[OF rest, of hi best] show ?thesis
    proof
      assume "(\<forall>w\<in>set ws'. \<not> exceeds (fst w) hi) \<and>
         mc_simulations n best hi g1 = Some (Inr (best, hi, g'))"
      then show ?thesis using w False ws by auto
    next
      assume "\<exists>pre t' r' post. ws' = pre @ (t', r') # post \<and> exceeds t' hi \<and>
            (\<forall>w\<in>set pre. fst w < t') \<and> (\<forall>w\<in>set post. fst w \<le> t') \<and>
            mc_simulations n best hi g1 = Some (Inr (Some r', Reward t', g'))"
      then obtain pre t' r' post where p: "ws' = pre @ (t', r') # post" "exceeds t' hi"
            "\<forall>w\<in>set pre. fst w < t'" "\<forall>w\<in>set post. fst w \<le> t'"
            "mc_simulations n best hi g1 = Some (Inr (Some r', Reward t', g'))"
        by auto
      have "t < t'" using p(2) hi by simp
      have "ws = ((t, r) # pre) @ (t', r') # post" using ws p(1) by simp
      moreover have "\<forall>w\<in>set ((t, r) # pre). fst w < t'" using \<open>t < t'\<close> p(3) by simp
      moreover have "mc_simulations (Suc n) best hi g = Some (Inr (Some r', Reward t', g'))"
        using w False p(5) by simp
      ultimately show ?thesis using p(2,4) by blast
    qed
  qed
qed

lemma mc_walks_length: "mc_walks n g = Some (ws, g') \<Longrightarrow> length ws = n"
  by (induction n arbitrary: g ws) (auto split: option.splits sum.splits)

lemma start_in_grid: "in_grid start_state"
  by (simp add: in_grid_def start_state_def)

lemma mc_walks_routes:
  "mc_walks n g = Some (ws, g') \<Longrightarrow>
   \<forall>w\<in>set ws. \<exists>ext. snd w = start_state # ext \<and> last (snd w) = end_state \<and> list_all in_grid ext \<and>
       fst w = sum_list (map cell_reward ext)"
proof (induction n arbitrary: g ws)
  case 0
  then show ?case by simp
next
  case (Suc n)
  from Suc.prems obtain t r g1 ws' where
    w: "mc_walk start_state 0 [start_state] g = Some (Inr (t, r, g1))"
    and rest: "mc_walks n g1 = Some (ws', g')" and ws: "ws = (t, r) # ws'"
    by (auto split: option.splits sum.splits)
  from mc_walk_inv[OF w start_in_grid] have
    "\<exists>ext. r = start_state # ext \<and> last r = end_state \<and> list_all in_grid ext \<and>
       t = sum_list (map cell_reward ext)" by auto
  with Suc.IH[OF rest] ws show ?case by simp
qed

lemma mc_simulations_snoc:
  "mc_simulations (Suc k) best hi g =
     (case mc_simulations k best hi g of
        None \<Rightarrow> None
      | Some (Inl e) \<Rightarrow> Some (Inl e)
      | Some (Inr (b, h, g1)) \<Rightarrow>
          (case mc_walk start_state 0 [start_state] g1 of
             None \<Rightarrow> None
           | Some (Inl e) \<Rightarrow> Some (Inl e)
           | Some (Inr (t, r, g2)) \<Rightarrow>
               if exceeds t h then Some (Inr (Some r, Reward t, g2)) else Some (Inr (b, h, g2))))"
  (is "_ = ?F (mc_simulations k best hi g)")
proof (induction k arbitrary: best hi g)
  case 0
  show ?case by (simp split: option.splits sum.splits)
next
  case (Suc k)
  show ?case
  proof (cases "mc_walk start_state 0 [start_state] g")
    case None
    then show ?thesis by simp
  next
    case (Some res)
    show ?thesis
    proof (cases res)
      case (Inl e)
      with Some show ?thesis by simp
    next
      case (Inr x)
      obtain t r g1 where x: "x = (t, r, g1)" by (cases x)
      have step: "mc_simulations (Suc n) b h g =
          (if exceeds t h then mc_simulations n (Some r) (Reward t) g1
           else mc_simulations n b h g1)" for n b h
        using Some Inr x by simp
      show ?thesis
      proof (cases "exceeds t hi")
        case True
        have "mc_simulations (Suc (Suc k)) best hi g = mc_simulations (Suc k) (Some r) (Reward t) g1"
          by (simp only: step True if_True)
        also have "\<dots> = ?F (mc_simulations k (Some r) (Reward t) g1)" by (rule Suc.IH)
        also have "\<dots> = ?F (mc_simulations (Suc k) best hi g)"
          by (simp only: step True if_True)
        finally show ?thesis .
      next
        case False
        have "mc_simulations (Suc (Suc k)) best hi g = mc_simulations (Suc k) best hi g1"
          by (simp only: step False if_False)
        also have "\<dots> = ?F (mc_simulations k best hi g1)" by (rule Suc.IH)
        also have "\<dots> = ?F (mc_simulations (Suc k) best hi g)"
          by (simp only: step False if_False)
        finally show ?thesis .
      qed
    qed
  qed
qed

lemma small_lengths: "Suc (Suc 0) = 2" "Suc (Suc (Suc 0)) = 3" "Suc (Suc (Suc (Suc 0))) = 4"
  by simp_all

lemma get_next_state_mc_tape4:
  "get_next_state_mc (0,3) tape4 = Inr ((0,2), tape4)"
  "get_next_state_mc (0,2) tape4 = Inr ((0,1), tape4)"
  "get_next_state_mc (0,1) tape4 = Inr ((0,0), tape4)"
  "get_next_state_mc (0,0) tape4 = Inr ((1,0), tape4)"
  "get_next_state_mc (1,0) tape4 = Inr ((2,0), tape4)"
  "get_next_state_mc (2,0) tape4 = Inr ((3,0), tape4)"
  "get_next_state_mc (3,0) tape4 = Inr ((4,0), tape4)"
  "get_next_state_mc (4,0) tape4 = Inr ((5,0), tape4)"
  unfolding tape4_def
  by (simp_all add: get_next_state_mc_def mc_possible_actions_eq
     random_choice_def next_draw_def bindE_def dict_item_def mc_actions_def small_lengths Let_def)

lemma R_at_tape4:
  "R_at (0,2) = Inr (-300)" "R_at (0,1) = Inr (-300)" "R_at (0,0) = Inr (-500)" "R_at (1,0) = Inr (-500)"
  "R_at (2,0) = Inr (-300)" "R_at (3,0) = Inr (-300)" "R_at (4,0) = Inr (-300)" "R_at (5,0) = Inr 1000"
  by (simp_all add: R_at_def py_nth_def R_matrix_val bindE_def)

lemma mc_walk_tape4:
  "mc_walk start_state 0 [start_state] tape4 =
     Some (Inr (-1500, [(0,3), (0,2), (0,1), (0,0), (1,0), (2,0), (3,0), (4,0), (5,0)], tape4))"
  by (simp add: mc_walk.simps start_state_def end_state_def get_next_state_mc_tape4 R_at_tape4)

lemma next_draw_tape_of:
  "next_draw (tape_of (k # ks)) = (k, tape_of ks)"
  "next_draw (tape_of []) = (0, tape_of [])"
  by (simp_all add: next_draw_def tape_of_def fun_eq_iff)

lemma get_next_state_mc_tape0:
  "get_next_state_mc (0, 3) (tape_of []) = Inr ((1, 3), tape_of [])"
  "get_next_state_mc (1, 3) (tape_of []) = Inr ((0, 3), tape_of [])"
  by (simp_all add: get_next_state_mc_def mc_possible_actions_eq
     random_choice_def next_draw_tape_of bindE_def mc_actions_lookup Let_def)

lemma R_at_tape0: "R_at (1, 3) = Inr (-300)" "R_at (0, 3) = Inr 10"
  by (simp_all add: R_at_def py_nth_def R_matrix_val bindE_def)

lemma mc_walk_tape0_never:
  assumes run: "mc_walk cur t route g = Some res"
  shows "\<not> ((cur = (0, 3) \<or> cur = (1, 3)) \<and> g = tape_of [])"
proof -
  let ?P = "\<lambda>cur (t::int) (route::position list) (g::rng)
               (res::py_error + (int \<times> position list \<times> rng)).
              \<not> ((cur = (0, 3) \<or> cur = (1, 3)) \<and> g = tape_of [])"
  show "?P cur t route g res"
  proof (rule mc_walk.raw_induct[where P = ?P, OF _ run])
    fix walk cur t route g res
    assume IH: "\<And>cur t route g res. walk cur t route g = Some res \<Longrightarrow> ?P cur t route g res"
      and step: "(if cur \<noteq> end_state
      then case get_next_state_mc cur g of Inl e \<Rightarrow> Some (Inl e)
           | Inr (next_state, g') \<Rightarrow>
               case R_at next_state of Inl e \<Rightarrow> Some (Inl e)
               | Inr r \<Rightarrow>
                   if next_state = end_state
                   then Some (Inr (t + r, route @ [next_state], g'))
                   else walk next_state (t + r) (route @ [next_state]) g'
      else Some (Inr (t, route, g))) = Some res"
    show "?P cur t route g res"
    proof
      assume a: "(cur = (0, 3) \<or> cur = (1, 3)) \<and> g = tape_of []"
      then have g: "g = tape_of []" by blast
      from a consider "cur = (0, 3)" | "cur = (1, 3)" by blast
      then show False
      proof cases
        case 1
        with step g have "walk (1, 3) (t + (-300)) (route @ [(1, 3)]) (tape_of []) = Some res"
          by (simp add: end_state_def get_next_state_mc_tape0 R_at_tape0)
        from IH[OF this] show False by simp
      next
        case 2
        with step g have "walk (0, 3) (t + 10) (route @ [(0, 3)]) (tape_of []) = Some res"
          by (simp add: end_state_def get_next_state_mc_tape0 R_at_tape0)
        from IH[OF this] show False by simp
      qed
    qed
  qed
qed

lemma mc_walk_tape0: "mc_walk start_state 0 [start_state] (tape_of []) = None"
proof (cases "mc_walk start_state 0 [start_state] (tape_of [])")
  case None
  then show ?thesis .
next
  case (Some res)
  from mc_walk_tape0_never[OF this] show ?thesis by (simp add: start_state_def)
qed

lemma mc_walk_no_error: "mc_walk start_state 0 [start_state] g \<noteq> Some (Inl e)"
  using mc_walk_inv[OF _ start_in_grid, of 0 "[start_state]" g "Inl e"] by auto

lemma mc_walks_None:
  assumes "mc_walks n g = None"
  shows "(\<exists>k ws g1. k < n \<and> mc_walks k g = Some (ws, g1) \<and>
            mc_walk start_state 0 [start_state] g1 = None) \<and>
         mc_simulations n best hi g = None"
  using assms
proof (induction n arbitrary: g best hi)
  case 0
  then show ?case by simp
next
  case (Suc n)
  show ?case
  proof (cases "mc_walk start_state 0 [start_state] g")
    case None
    then have "mc_walks 0 g = Some ([], g) \<and> mc_walk start_state 0 [start_state] g = None"
      by simp
    then have "\<exists>k ws g1. k < Suc n \<and> mc_walks k g = Some (ws, g1) \<and>
            mc_walk start_state 0 [start_state] g1 = None" by blast
    with None show ?thesis by simp
  next
    case (Some res)
    with mc_walk_no_error obtain x where res: "res = Inr x" by (cases res) auto
    obtain t r g' where x: "x = (t, r, g')" by (cases x)
    from Suc.prems Some res x have rest: "mc_walks n g' = None"
      by (cases "mc_walks n g'") auto
    from Suc.IH[OF rest] obtain k ws g1 where
      k: "k < n" "mc_walks k g' = Some (ws, g1)" "mc_walk start_state 0 [start_state] g1 = None"
      by blast
    have "mc_walks (Suc k) g = Some ((t, r) # ws, g1)" using Some res x k(2) by simp
    with k(1,3) have "\<exists>k ws g1. k < Suc n \<and> mc_walks k g = Some (ws, g1) \<and>
            mc_walk start_state 0 [start_state] g1 = None"
      by (intro exI[of _ "Suc k"] exI[of _ "(t, r) # ws"] exI[of _ g1]) simp
    moreover have "mc_simulations (Suc n) best hi g = None"
      using Some res x Suc.IH[OF rest] by simp
    ultimately show ?thesis by blast
  qed
qed

lemma get_next_state_mc_tape_of:
  "get_next_state_mc (0, 3) (tape_of (13 # ks)) = Inr ((0, 2), tape_of ks)"
  "get_next_state_mc (0, 2) (tape_of (13 # ks)) = Inr ((0, 1), tape_of ks)"
  "get_next_state_mc (0, 1) (tape_of (13 # ks)) = Inr ((0, 0), tape_of ks)"
  "get_next_state_mc (0, 1) (tape_of (12 # ks)) = Inr ((1, 1), tape_of ks)"
  "get_next_state_mc (0, 0) (tape_of (12 # ks)) = Inr ((1, 0), tape_of ks)"
  "get_next_state_mc (1, 0) (tape_of (14 # ks)) = Inr ((1, 1), tape_of ks)"
  "get_next_state_mc (1, 0) (tape_of (13 # ks)) = Inr ((2, 0), tape_of ks)"
  "get_next_state_mc (1, 1) (tape_of (13 # ks)) = Inr ((2, 1), tape_of ks)"
  "get_next_state_mc (1, 1) (tape_of (14 # ks)) = Inr ((1, 0), tape_of ks)"
  "get_next_state_mc (2, 1) (tape_of (14 # ks)) = Inr ((2, 0), tape_of ks)"
  "get_next_state_mc (2, 0) (tape_of (13 # ks)) = Inr ((3, 0), tape_of ks)"
  "get_next_state_mc (3, 0) (tape_of (13 # ks)) = Inr ((4, 0), tape_of ks)"
  "get_next_state_mc (4, 0) (tape_of (13 # ks)) = Inr ((5, 0), tape_of ks)"
  by (simp_all add: get_next_state_mc_def mc_possible_actions_eq
     random_choice_def next_draw_tape_of bindE_def mc_actions_lookup small_lengths Let_def)

lemma R_at_west: "R_at (1, 1) = Inr (-500)" "R_at (2, 1) = Inr 10"
  by (simp_all add: R_at_def py_nth_def R_matrix_val bindE_def)

lemma mc_walk_tape3_first:
  "mc_walk start_state 0 [start_state]
     (tape_of (13 # 13 # 13 # 12 # 14 # 13 # 14 # 13 # 13 # 13 # ks)) =
   Some (Inr (-1990, [(0,3), (0,2), (0,1), (0,0), (1,0), (1,1), (2,1), (2,0), (3,0), (4,0), (5,0)],
              tape_of ks))"
  by (simp add: mc_walk.simps start_state_def end_state_def get_next_state_mc_tape_of
        R_at_tape4 R_at_west)

lemma mc_walk_tape3_second:
  "mc_walk start_state 0 [start_state] (tape_of (13 # 13 # 13 # 12 # 13 # 13 # 13 # 13 # ks)) =
   Some (Inr (-1500, [(0,3), (0,2), (0,1), (0,0), (1,0), (2,0), (3,0), (4,0), (5,0)], tape_of ks))"
  by (simp add: mc_walk.simps start_state_def end_state_def get_next_state_mc_tape_of
        R_at_tape4 R_at_west)

lemma mc_walk_tape3_third:
  "mc_walk start_state 0 [start_state] (tape_of (13 # 13 # 12 # 14 # 13 # 13 # 13 # 13 # ks)) =
   Some (Inr (-1500, [(0,3), (0,2), (0,1), (1,1), (1,0), (2,0), (3,0), (4,0), (5,0)], tape_of ks))"
  by (simp add: mc_walk.simps start_state_def end_state_def get_next_state_mc_tape_of
        R_at_tape4 R_at_west)

lemma mc_walks_tape3:
  "mc_walks 3 tape3 =
     Some ([(-1990, [(0,3), (0,2), (0,1), (0,0), (1,0), (1,1), (2,1), (2,0), (3,0), (4,0), (5,0)]),
            (-1500, [(0,3), (0,2), (0,1), (0,0), (1,0), (2,0), (3,0), (4,0), (5,0)]),
            (-1500, [(0,3), (0,2), (0,1), (1,1), (1,0), (2,0), (3,0), (4,0), (5,0)])],
           tape_of [])"
  unfolding tape3_def numeral_3_eq_3 mc_walks.simps
  by (simp only: mc_walk_tape3_first mc_walk_tape3_second mc_walk_tape3_third
        option.case sum.case prod.case)

text \<open>
  Claim C5 (as the code has it). The walk has no step bound, so exploration returns only
  when every walk reaches the end state: when one of the numSimulations walks (numSimulations
  at least 1) never reaches it, exploration never returns. When each of them reaches it,
  exploration returns the route and the total of the first walk whose total is greatest:
  every earlier walk has a strictly smaller total and no later walk has a greater one. Every
  walk starts at the start state (0, 3) and ends at the end state, and its total is the sum
  of the rewards of the cells entered after the start cell, each counted as often as it is
  entered.
\<close>

theorem monte_carlo_first_best:
  assumes pos: "1 \<le> n"
  shows "(mc_walks (nat n) g = None \<longrightarrow>
            (\<exists>k ws g1. k < nat n \<and> mc_walks k g = Some (ws, g1) \<and>
               mc_walk start_state 0 [start_state] g1 = None) \<and>
            monte_carlo_exploration n g = None) \<and>
         (\<forall>ws g'. mc_walks (nat n) g = Some (ws, g') \<longrightarrow>
            (\<exists>pre t r post.
               ws = pre @ (t, r) # post \<and>
               (\<forall>w\<in>set pre. fst w < t) \<and> (\<forall>w\<in>set post. fst w \<le> t) \<and>
               monte_carlo_exploration n g = Some (Inr (Some r, Reward t, g')) \<and>
               (\<forall>w\<in>set ws. \<exists>ext. snd w = start_state # ext \<and> last (snd w) = end_state \<and>
                    list_all in_grid ext \<and> fst w = sum_list (map cell_reward ext))))"
proof (intro conjI impI allI)
  assume none: "mc_walks (nat n) g = None"
  from mc_walks_None[OF none, of None NegInf]
  show "\<exists>k ws g1. k < nat n \<and> mc_walks k g = Some (ws, g1) \<and>
               mc_walk start_state 0 [start_state] g1 = None"
    and "monte_carlo_exploration n g = None"
    by (simp_all add: monte_carlo_exploration_def)
next
  fix ws g'
  assume walks: "mc_walks (nat n) g = Some (ws, g')"
  from mc_walks_length[OF walks] pos have "ws \<noteq> []" by auto
  then have "\<not> (\<forall>w\<in>set ws. \<not> exceeds (fst w) NegInf)" by (cases ws) auto
  with mc_simulations_first_max[OF walks, of NegInf None]
  obtain pre t r post where "ws = pre @ (t, r) # post"
     "\<forall>w\<in>set pre. fst w < t" "\<forall>w\<in>set post. fst w \<le> t"
     "mc_simulations (nat n) None NegInf g = Some (Inr (Some r, Reward t, g'))" by blast
  with mc_walks_routes[OF walks]
  show "\<exists>pre t r post.
               ws = pre @ (t, r) # post \<and>
               (\<forall>w\<in>set pre. fst w < t) \<and> (\<forall>w\<in>set post. fst w \<le> t) \<and>
               monte_carlo_exploration n g = Some (Inr (Some r, Reward t, g')) \<and>
               (\<forall>w\<in>set ws. \<exists>ext. snd w = start_state # ext \<and> last (snd w) = end_state \<and>
                    list_all in_grid ext \<and> fst w = sum_list (map cell_reward ext))"
    unfolding monte_carlo_exploration_def by blast
qed

theorem monte_carlo_first_best_witness:
  "monte_carlo_exploration 3 tape3 =
     Some (Inr (Some [(0,3), (0,2), (0,1), (0,0), (1,0), (2,0), (3,0), (4,0), (5,0)],
                Reward (-1500), tape_of [])) \<and>
   monte_carlo_exploration 1 (tape_of []) = None"
proof
  define r1 :: "position list" where
    "r1 = [(0,3), (0,2), (0,1), (0,0), (1,0), (1,1), (2,1), (2,0), (3,0), (4,0), (5,0)]"
  define r2 :: "position list" where
    "r2 = [(0,3), (0,2), (0,1), (0,0), (1,0), (2,0), (3,0), (4,0), (5,0)]"
  define r3 :: "position list" where
    "r3 = [(0,3), (0,2), (0,1), (1,1), (1,0), (2,0), (3,0), (4,0), (5,0)]"
  have walks: "mc_walks (nat 3) tape3 = Some ([(-1990, r1), (-1500, r2), (-1500, r3)], tape_of [])"
    using mc_walks_tape3 by (simp add: r1_def r2_def r3_def)
  have three: "(1::int) \<le> 3" by simp
  from monte_carlo_first_best [OF three, of tape3] walks
  obtain pre t r post where d: "[(-1990, r1), (-1500, r2), (-1500, r3)] = pre @ (t, r) # post"
    "\<forall>w\<in>set pre. fst w < t" "\<forall>w\<in>set post. fst w \<le> t"
    "monte_carlo_exploration 3 tape3 = Some (Inr (Some r, Reward t, tape_of []))"
    by blast
  from d(1) consider
      "pre = []" "(t, r) = (-1990, r1)" "post = [(-1500, r2), (-1500, r3)]"
    | "pre = [(-1990, r1)]" "(t, r) = (-1500, r2)" "post = [(-1500, r3)]"
    | "pre = [(-1990, r1), (-1500, r2)]" "(t, r) = (-1500, r3)" "post = []"
    by (auto simp add: Cons_eq_append_conv)
  then have "(t, r) = (-1500, r2)"
  proof cases
    case 1
    with d(3) show ?thesis by simp
  next
    case 2
    then show ?thesis by simp
  next
    case 3
    with d(2) show ?thesis by simp
  qed
  with d(4) show "monte_carlo_exploration 3 tape3 =
     Some (Inr (Some [(0,3), (0,2), (0,1), (0,0), (1,0), (2,0), (3,0), (4,0), (5,0)],
                Reward (-1500), tape_of []))"
    by (simp add: r2_def)
next
  have one: "(1::int) \<le> 1" by simp
  have "mc_walks (nat 1) (tape_of []) = None" by (simp add: mc_walk_tape0)
  with monte_carlo_first_best [OF one, of "tape_of []"]
  show "monte_carlo_exploration 1 (tape_of []) = None" by blast
qed

text \<open>
  On the tape of zeros the walk alternates between (0, 3) and (1, 3) for ever, so
  exploration with one simulation does not return.
\<close>

theorem monte_carlo_never_returns_counterexample:
  "monte_carlo_exploration 1 (tape_of []) = None"
  by (simp add: monte_carlo_exploration_def mc_walk_tape0)

text \<open>
  Claim C9. On the same tape of random draws, when exploration with n simulations (n at
  least 1) returns, exploration with n - 1 simulations returns too, and its highest reward
  is at most the one of n simulations.
\<close>

theorem monte_carlo_monotone:
  assumes run: "monte_carlo_exploration n g = Some (Inr (route_n, reward_n, g_n))"
      and pos: "1 \<le> n"
  shows "\<exists>route_m reward_m g_m.
           monte_carlo_exploration (n - 1) g = Some (Inr (route_m, reward_m, g_m)) \<and>
           hreward_le reward_m reward_n"
proof -
  from pos have n: "nat n = Suc (nat (n - 1))" by simp
  from run have "mc_simulations (Suc (nat (n - 1))) None NegInf g = Some (Inr (route_n, reward_n, g_n))"
    by (simp add: monte_carlo_exploration_def n)
  then have snoc: "(case mc_simulations (nat (n - 1)) None NegInf g of
        None \<Rightarrow> None
      | Some (Inl e) \<Rightarrow> Some (Inl e)
      | Some (Inr (b, h, g1)) \<Rightarrow>
          (case mc_walk start_state 0 [start_state] g1 of
             None \<Rightarrow> None
           | Some (Inl e) \<Rightarrow> Some (Inl e)
           | Some (Inr (t, r, g2)) \<Rightarrow>
               if exceeds t h then Some (Inr (Some r, Reward t, g2)) else Some (Inr (b, h, g2))))
      = Some (Inr (route_n, reward_n, g_n))"
    by (simp only: mc_simulations_snoc)
  then obtain b h g1 where
    prev: "mc_simulations (nat (n - 1)) None NegInf g = Some (Inr (b, h, g1))"
    by (cases "mc_simulations (nat (n - 1)) None NegInf g") (auto split: sum.splits)
  from snoc prev have walk: "(case mc_walk start_state 0 [start_state] g1 of
             None \<Rightarrow> None
           | Some (Inl e) \<Rightarrow> Some (Inl e)
           | Some (Inr (t, r, g2)) \<Rightarrow>
               if exceeds t h then Some (Inr (Some r, Reward t, g2)) else Some (Inr (b, h, g2)))
      = Some (Inr (route_n, reward_n, g_n))"
    by simp
  then obtain x where x: "mc_walk start_state 0 [start_state] g1 = Some (Inr x)"
    by (cases "mc_walk start_state 0 [start_state] g1") (auto split: sum.splits)
  obtain t r g2 where "x = (t, r, g2)" by (cases x)
  with walk x have
    last: "(if exceeds t h then Some (Inr (Some r, Reward t, g2)) else Some (Inr (b, h, g2)))
            = Some (Inr (route_n, reward_n, g_n))"
    by (simp split: if_splits)
  have "hreward_le h reward_n"
  proof (cases "exceeds t h")
    case True
    with last have "reward_n = Reward t" by simp
    with True show ?thesis by (cases h) auto
  next
    case False
    with last have "reward_n = h" by simp
    then show ?thesis by (cases h) auto
  qed
  with prev show ?thesis by (simp add: monte_carlo_exploration_def)
qed

theorem monte_carlo_monotone_witness:
  "\<exists>route_m g_m.
      monte_carlo_exploration 1 tape4 = Some (Inr (route_m, Reward (-1500), g_m)) \<and>
      hreward_le (Reward (-1500)) (Reward (-1500))"
proof -
  have run: "monte_carlo_exploration 2 tape4 =
     Some (Inr (Some [(0,3), (0,2), (0,1), (0,0), (1,0), (2,0), (3,0), (4,0), (5,0)],
                Reward (-1500), tape4))"
    by (simp add: monte_carlo_exploration_def numeral_2_eq_2 mc_walk_tape4)
  have one: "monte_carlo_exploration 1 tape4 =
     Some (Inr (Some [(0,3), (0,2), (0,1), (0,0), (1,0), (2,0), (3,0), (4,0), (5,0)],
                Reward (-1500), tape4))"
    by (simp add: monte_carlo_exploration_def mc_walk_tape4)
  from monte_carlo_monotone [OF run] one show ?thesis by simp
qed

section \<open>Properties of the greedy path\<close>

lemma fold_first_max:
  fixes x :: "'a \<times> 'k::linorder"
  shows "\<exists>pre post. x # ys = pre @ fold (\<lambda>item m. if snd item > snd m then item else m) ys x # post \<and>
      (\<forall>y\<in>set pre. snd y < snd (fold (\<lambda>item m. if snd item > snd m then item else m) ys x)) \<and>
      (\<forall>y\<in>set post. snd y \<le> snd (fold (\<lambda>item m. if snd item > snd m then item else m) ys x))"
proof (induction ys arbitrary: x)
  case Nil
  show ?case by (rule exI[of _ "[]"], rule exI[of _ "[]"]) simp
next
  case (Cons y ys)
  let ?step = "\<lambda>(item::'a \<times> 'k) m. if snd item > snd m then item else m"
  define x' where "x' = (if snd y > snd x then y else x)"
  define r where "r = fold ?step ys x'"
  have f: "fold ?step (y # ys) x = r" by (simp add: r_def x'_def)
  from Cons.IH[of x'] obtain pre post where d: "x' # ys = pre @ r # post"
    "\<forall>z\<in>set pre. snd z < snd r" "\<forall>z\<in>set post. snd z \<le> snd r"
    unfolding r_def by blast
  have "\<exists>pre post. x # y # ys = pre @ r # post \<and>
      (\<forall>z\<in>set pre. snd z < snd r) \<and> (\<forall>z\<in>set post. snd z \<le> snd r)"
  proof (cases "snd y > snd x")
    case True
    then have xy: "x' = y" by (simp add: x'_def)
    have "y \<in> set (pre @ r # post)" using d(1) xy by (metis list.set_intros(1))
    then have "snd y \<le> snd r" using d(2,3) by auto
    with True have "snd x < snd r" by simp
    with d xy show ?thesis
      by (intro exI[of _ "x # pre"] exI[of _ post]) simp
  next
    case False
    then have xx: "x' = x" by (simp add: x'_def)
    show ?thesis
    proof (cases pre)
      case Nil
      with d(1) xx have "x = r" "ys = post" by simp_all
      with d(3) False show ?thesis
        by (intro exI[of _ "[]"] exI[of _ "y # post"]) auto
    next
      case (Cons p pre')
      with d(1) xx have px: "p = x" and ys: "ys = pre' @ r # post" by simp_all
      from d(2) Cons px have "snd x < snd r" by simp
      with False have "snd y < snd r" by simp
      with d(2,3) Cons px ys show ?thesis
        by (intro exI[of _ "x # y # pre'"] exI[of _ post]) simp
    qed
  qed
  then show ?case unfolding f by simp
qed

lemma py_max_by_first:
  fixes ks :: "('a \<times> 'k::linorder) list"
  assumes "ks \<noteq> []"
  shows "\<exists>pre b k post. py_max_by ks = Inr b \<and> ks = pre @ (b, k) # post \<and>
           (\<forall>y\<in>set pre. snd y < k) \<and> (\<forall>y\<in>set post. snd y \<le> k)"
proof -
  from assms obtain x ys where ks: "ks = x # ys" by (cases ks) auto
  let ?r = "fold (\<lambda>item m. if snd item > snd m then item else m) ys x"
  from fold_first_max[of x ys] obtain pre post where
    "x # ys = pre @ ?r # post" "\<forall>y\<in>set pre. snd y < snd ?r" "\<forall>y\<in>set post. snd y \<le> snd ?r"
    by blast
  moreover have "py_max_by ks = Inr (fst ?r)" by (simp add: py_max_by_def ks)
  ultimately show ?thesis unfolding ks
    by (intro exI[of _ pre] exI[of _ "fst ?r"] exI[of _ "snd ?r"] exI[of _ post]) simp
qed

lemma keyed_ok:
  assumes "\<forall>x\<in>set xs. f x = Inr (k x)"
  shows "keyed f xs = Inr (map (\<lambda>x. (x, k x)) xs)"
  using assms by (induction xs) auto

lemma get_possible_actions_sorted:
  "get_possible_actions s \<noteq> [] \<and> sorted_wrt (<) (get_possible_actions s) \<and>
   set (get_possible_actions s) \<subseteq> {0, 1, 2, 3}"
  by (simp add: get_possible_actions_def Let_def)

lemma greedy_choice:
  fixes q :: "real list"
  assumes ne: "acts \<noteq> []" and sorted: "sorted_wrt (<) acts"
      and sub: "set acts \<subseteq> {0, 1, 2, 3}" and len: "length q = 4"
  shows "\<exists>a\<in>set acts.
           (\<forall>b\<in>set acts. q ! nat b \<le> q ! nat a) \<and>
           (\<forall>b\<in>set acts. b < a \<longrightarrow> q ! nat b < q ! nat a) \<and>
           (\<exists>ks. keyed (\<lambda>action. py_nth q (fst action)) (map (\<lambda>a. (a, nx a)) acts) = Inr ks \<and>
              py_max_by ks = Inr (a, nx a))"
proof -
  let ?pa = "map (\<lambda>a. (a, nx a)) acts"
  let ?F = "\<lambda>a. ((a, nx a), q ! nat a)"
  have "\<forall>x\<in>set ?pa. py_nth q (fst x) = Inr (q ! nat (fst x))"
    using sub len by (auto simp add: py_nth_def)
  then have "keyed (\<lambda>action. py_nth q (fst action)) ?pa = Inr (map (\<lambda>x. (x, q ! nat (fst x))) ?pa)"
    by (rule keyed_ok)
  then have k: "keyed (\<lambda>action. py_nth q (fst action)) ?pa = Inr (map ?F acts)"
    by (simp add: comp_def)
  from ne have "map ?F acts \<noteq> []" by simp
  from py_max_by_first[OF this] obtain pre b kk post where
    m: "py_max_by (map ?F acts) = Inr b" "map ?F acts = pre @ (b, kk) # post"
       "\<forall>y\<in>set pre. snd y < kk" "\<forall>y\<in>set post. snd y \<le> kk" by blast
  from m(2) obtain as1 rest where a1: "acts = as1 @ rest" "pre = map ?F as1" "(b, kk) # post = map ?F rest"
    by (auto simp add: map_eq_append_conv)
  from a1(3) obtain a as2 where a2: "rest = a # as2" "(b, kk) = ?F a" "post = map ?F as2"
    by (auto simp add: Cons_eq_map_conv)
  have acts: "acts = as1 @ a # as2" using a1(1) a2(1) by simp
  have b: "b = (a, nx a)" and kk: "kk = q ! nat a" using a2(2) by simp_all
  have lt: "\<forall>x\<in>set as1. q ! nat x < q ! nat a" using m(3) a1(2) kk by simp
  have le: "\<forall>x\<in>set as2. q ! nat x \<le> q ! nat a" using m(4) a2(3) kk by simp
  have ord: "\<forall>x\<in>set as2. a < x" using sorted acts by (simp add: sorted_wrt_append)
  have "a \<in> set acts" using acts by simp
  moreover have "\<forall>x\<in>set acts. q ! nat x \<le> q ! nat a" using lt le acts by auto
  moreover have "\<forall>x\<in>set acts. x < a \<longrightarrow> q ! nat x < q ! nat a" using lt ord acts by auto
  moreover have "\<exists>ks. keyed (\<lambda>action. py_nth q (fst action)) ?pa = Inr ks \<and>
              py_max_by ks = Inr (a, nx a)"
    using k m(1) b by simp
  ultimately show ?thesis by blast
qed

lemma end_state_index: "dict_item state_indices end_state = Inr 30"
  by (simp add: dict_item_def end_state_def state_indices_eq)

lemma start_state_index: "dict_item state_indices start_state = Inr 3"
  by (simp add: dict_item_def start_state_def state_indices_eq)

lemma wf_Q_row:
  assumes "wf_Q Q" "0 \<le> s" "s \<le> 35"
  shows "py_nth Q s = Inr (Q ! nat s)" "length (Q ! nat s) = 4"
  using assms by (simp_all add: wf_Q_def py_nth_def list_all_length)

lemma decode_in_grid:
  assumes "0 \<le> s" "s \<le> 35"
  shows "in_grid (decode s)"
proof -
  from assms obtain r c where "s = r * 6 + c" "0 \<le> r" "r \<le> 5" "0 \<le> c" "c \<le> 5"
    by (rule index_split)
  then show ?thesis by (simp add: decode_encode in_grid_def)
qed

lemma R_at_decode:
  assumes "0 \<le> s" "s \<le> 35"
  shows "R_at (s div 6, s mod 6) = Inr (cell_reward (decode s))"
  using R_at_in_grid[OF decode_in_grid[OF assms]] by (simp add: decode_def)

lemma greedy_body_step:
  assumes wf: "wf_Q Q" and s: "0 \<le> s" "s \<le> 35" and cur: "current_state_index st = s"
  shows "\<exists>a\<in>set (get_possible_actions s).
           (\<forall>b\<in>set (get_possible_actions s). Q ! nat s ! nat b \<le> Q ! nat s ! nat a) \<and>
           (\<forall>b\<in>set (get_possible_actions s). b < a \<longrightarrow> Q ! nat s ! nat b < Q ! nat s ! nat a) \<and>
           greedy_body get_possible_actions Q st =
             Inr (Next \<lparr>current_state_index = get_next_state s a,
                        path = path st @ [decode (get_next_state s a)],
                        total_reward = total_reward st + cell_reward (decode (get_next_state s a)),
                        stdout = stdout st\<rparr>)"
proof -
  note row = wf_Q_row[OF wf s]
  note acts = get_possible_actions_sorted[of s]
  from greedy_choice[of "get_possible_actions s" "Q ! nat s" "get_next_state s"] acts row(2)
  obtain a ks where a: "a \<in> set (get_possible_actions s)"
    "\<forall>b\<in>set (get_possible_actions s). Q ! nat s ! nat b \<le> Q ! nat s ! nat a"
    "\<forall>b\<in>set (get_possible_actions s). b < a \<longrightarrow> Q ! nat s ! nat b < Q ! nat s ! nat a"
    "keyed (\<lambda>action. py_nth (Q ! nat s) (fst action))
        (map (\<lambda>a. (a, get_next_state s a)) (get_possible_actions s)) = Inr ks"
    "py_max_by ks = Inr (a, get_next_state s a)"
    by blast
  note rng = get_next_state_range[OF s, of a]
  have r: "R_at (get_next_state s a div 6, get_next_state s a mod 6)
             = Inr (cell_reward (decode (get_next_state s a)))"
    using rng by (intro R_at_decode) simp_all
  have "greedy_body get_possible_actions Q st =
             Inr (Next \<lparr>current_state_index = get_next_state s a,
                        path = path st @ [decode (get_next_state s a)],
                        total_reward = total_reward st + cell_reward (decode (get_next_state s a)),
                        stdout = stdout st\<rparr>)"
    using acts a(4,5) r
    by (simp add: greedy_body_def cur row(1) greedy_iter_def bindE_def decode_def Let_def)
  with a(1,2,3) show ?thesis by blast
qed

lemma greedy_body_no_break:
  "greedy_body get_possible_actions Q st \<noteq> Inr (Break st')"
proof -
  have "get_possible_actions (current_state_index st) \<noteq> []"
    using get_possible_actions_sorted by blast
  then show ?thesis
    by (auto simp add: greedy_body_def greedy_iter_def bindE_def Let_def split: sum.splits prod.splits)
qed

lemma greedy_body_next_stdout:
  "greedy_body possible Q st = Inr (Next st') \<Longrightarrow> stdout st' = stdout st"
  by (auto simp add: greedy_body_def greedy_iter_def bindE_def Let_def split: sum.splits prod.splits if_splits)

lemma greedy_loop_next:
  assumes "current_state_index st \<noteq> 30" "greedy_body possible Q st = Inr (Next st')"
  shows "greedy_loop possible Q st = greedy_loop possible Q st'"
  using assms by (subst greedy_loop.simps) (simp add: end_state_index)

lemma get_possible_actions_filter:
  assumes "0 \<le> s" "s \<le> 35"
  shows "get_possible_actions s = filter (\<lambda>a. get_next_state s a \<noteq> s) [0, 1, 2, 3]"
proof -
  from assms obtain r c where rc: "s = r * 6 + c" "0 \<le> r" "r \<le> 5" "0 \<le> c" "c \<le> 5"
    by (rule index_split)
  then show ?thesis by (simp add: get_next_state_rc get_possible_actions_rc)
qed

lemma wf_Q_update: "wf_Q Q \<Longrightarrow> length r = 4 \<Longrightarrow> wf_Q (Q[i := r])"
  using set_update_subset_insert[of Q i r] by (auto simp add: wf_Q_def list_all_iff)

lemma wf_Q_init: "wf_Q Q_matrix_init"
  by (simp add: wf_Q_def Q_matrix_init_def list_all_length)

text \<open>
  Claim C4. At a step of the greedy path from a state index in 0..35 of a 36 by 4 table,
  the candidates are exactly the actions that do not self-loop, in the order up, down,
  left, right; the action taken has the greatest Q-value of the current state among the
  candidates, and every candidate before it in that order has a strictly smaller one. The
  step moves to the state that action leads to, appends its position to the route and
  adds its reward to the running total; the loop continues from there.
\<close>

theorem greedy_step_first_max:
  assumes wf: "wf_Q Q" and s: "0 \<le> s" "s \<le> 35" and cur: "current_state_index st = s"
  shows "get_possible_actions s = filter (\<lambda>a. get_next_state s a \<noteq> s) [0, 1, 2, 3] \<and>
         (\<exists>a\<in>set (get_possible_actions s).
           (\<forall>b\<in>set (get_possible_actions s). Q ! nat s ! nat b \<le> Q ! nat s ! nat a) \<and>
           (\<forall>b\<in>set (get_possible_actions s). b < a \<longrightarrow> Q ! nat s ! nat b < Q ! nat s ! nat a) \<and>
           greedy_body get_possible_actions Q st =
             Inr (Next \<lparr>current_state_index = get_next_state s a,
                        path = path st @ [decode (get_next_state s a)],
                        total_reward = total_reward st + cell_reward (decode (get_next_state s a)),
                        stdout = stdout st\<rparr>) \<and>
           (s \<noteq> 30 \<longrightarrow>
              greedy_loop get_possible_actions Q st =
              greedy_loop get_possible_actions Q
                \<lparr>current_state_index = get_next_state s a,
                 path = path st @ [decode (get_next_state s a)],
                 total_reward = total_reward st + cell_reward (decode (get_next_state s a)),
                 stdout = stdout st\<rparr>))"
proof -
  from greedy_body_step[OF wf s cur] obtain a where a: "a \<in> set (get_possible_actions s)"
    "\<forall>b\<in>set (get_possible_actions s). Q ! nat s ! nat b \<le> Q ! nat s ! nat a"
    "\<forall>b\<in>set (get_possible_actions s). b < a \<longrightarrow> Q ! nat s ! nat b < Q ! nat s ! nat a"
    "greedy_body get_possible_actions Q st =
             Inr (Next \<lparr>current_state_index = get_next_state s a,
                        path = path st @ [decode (get_next_state s a)],
                        total_reward = total_reward st + cell_reward (decode (get_next_state s a)),
                        stdout = stdout st\<rparr>)"
    by blast
  from greedy_loop_next[OF _ a(4)] cur have
    "s \<noteq> 30 \<longrightarrow>
              greedy_loop get_possible_actions Q st =
              greedy_loop get_possible_actions Q
                \<lparr>current_state_index = get_next_state s a,
                 path = path st @ [decode (get_next_state s a)],
                 total_reward = total_reward st + cell_reward (decode (get_next_state s a)),
                 stdout = stdout st\<rparr>" by simp
  with a get_possible_actions_filter[OF s] show ?thesis by blast
qed

lemma get_possible_actions_3: "get_possible_actions 3 = [1, 2, 3]"
  by (simp add: get_possible_actions_def)

theorem greedy_step_first_max_witness:
  "greedy_body get_possible_actions (Q_matrix_init[3 := [9, 1, 7, 7]])
     \<lparr>current_state_index = 3, path = [(0, 3)], total_reward = 0, stdout = []\<rparr>
   = Inr (Next \<lparr>current_state_index = 2, path = [(0, 3), (0, 2)], total_reward = -300,
                stdout = []\<rparr>)"
proof -
  let ?Q = "Q_matrix_init[3 := [9, 1, 7, 7]]"
  let ?st = "\<lparr>current_state_index = 3, path = [(0, 3)], total_reward = 0, stdout = []\<rparr>"
  have wf: "wf_Q ?Q" by (simp add: wf_Q_update wf_Q_init)
  have row: "?Q ! nat 3 = [9, 1, 7, 7]" by (simp add: Q_matrix_init_def)
  from greedy_step_first_max [OF wf, of 3 ?st]
  obtain a where a: "a \<in> set (get_possible_actions 3)"
    "\<forall>b\<in>set (get_possible_actions 3). ?Q ! nat 3 ! nat b \<le> ?Q ! nat 3 ! nat a"
    "\<forall>b\<in>set (get_possible_actions 3). b < a \<longrightarrow> ?Q ! nat 3 ! nat b < ?Q ! nat 3 ! nat a"
    "greedy_body get_possible_actions ?Q ?st =
             Inr (Next \<lparr>current_state_index = get_next_state 3 a,
                        path = path ?st @ [decode (get_next_state 3 a)],
                        total_reward = total_reward ?st + cell_reward (decode (get_next_state 3 a)),
                        stdout = stdout ?st\<rparr>)"
    by auto
  have "a = 2" using a(1,2,3) unfolding row get_possible_actions_3 by auto
  moreover have "get_next_state 3 2 = 2" using get_next_state_rc[of 3 0 2] by simp
  moreover have "decode 2 = (0, 2)" by (simp add: decode_def)
  moreover have "cell_reward (0, 2) = -300" by (simp add: cell_reward_def R_matrix_val)
  ultimately show ?thesis using a(4) by simp
qed







lemma greedy_loop_no_abort:
  assumes run: "greedy_loop get_possible_actions Q st = Some res"
  shows "\<forall>st'. res = Inr st' \<longrightarrow> stdout st' = stdout st \<and> current_state_index st' = 30"
proof -
  let ?P = "\<lambda>(possible :: int \<Rightarrow> int list) (Q :: qmatrix) st res. possible = get_possible_actions \<longrightarrow>
      (\<forall>st'. res = Inr st' \<longrightarrow> stdout st' = stdout st \<and> current_state_index st' = 30)"
  have "?P get_possible_actions Q st res"
  proof (rule greedy_loop.raw_induct[where P = ?P, OF _ run], rule impI)
    fix loop possible Q st res
    assume IH: "\<And>possible Q st res. loop possible Q st = Some res \<Longrightarrow> ?P possible Q st res"
      and step: "(case dict_item state_indices end_state of
        Inl e \<Rightarrow> Some (Inl e)
      | Inr end_state_index \<Rightarrow>
          if current_state_index st \<noteq> end_state_index then
            (case greedy_body possible Q st of
               Inl e \<Rightarrow> Some (Inl e)
             | Inr (Break st') \<Rightarrow> Some (Inr st')
             | Inr (Next st') \<Rightarrow> loop possible Q st')
          else Some (Inr st)) = Some res"
      and p: "possible = get_possible_actions"
    show "\<forall>st'. res = Inr st' \<longrightarrow> stdout st' = stdout st \<and> current_state_index st' = 30"
    proof (cases "current_state_index st = 30")
      case True
      with step show ?thesis by (auto simp add: end_state_index)
    next
      case False
      show ?thesis
      proof (cases "greedy_body possible Q st")
        case (Inl e)
        with step False show ?thesis by (auto simp add: end_state_index)
      next
        case (Inr c)
        show ?thesis
        proof (cases c)
          case (Break st1)
          with Inr p greedy_body_no_break show ?thesis by blast
        next
          case (Next st1)
          with step False Inr have "loop possible Q st1 = Some res" by (simp add: end_state_index)
          from IH[OF this] p have "\<forall>st'. res = Inr st' \<longrightarrow> stdout st' = stdout st1 \<and> current_state_index st' = 30"
            by blast
          moreover from Inr Next have "stdout st1 = stdout st" using greedy_body_next_stdout by blast
          ultimately show ?thesis by simp
        qed
      qed
    qed
  qed
  then show ?thesis by blast
qed

lemma get_possible_actions_set:
  assumes "0 \<le> s" "s \<le> 35"
  shows "set (get_possible_actions s) = {a. get_next_state s a \<noteq> s}"
proof -
  from assms obtain r c where rc: "s = r * 6 + c" "0 \<le> r" "r \<le> 5" "0 \<le> c" "c \<le> 5"
    by (rule index_split)
  then show ?thesis by (auto simp add: get_next_state_rc get_possible_actions_rc split: if_splits)
qed

text \<open>
  Claim C10. For every state index from 0 to 35 the list of possible actions is not empty
  and holds exactly the actions whose transition leaves the state. So no pass through the
  body of the greedy loop takes the branch that breaks, a greedy path that returns has
  printed nothing, the list of possible actions of the Monte Carlo step is not empty at the
  position of the state, and that step moves to another position of the grid.
\<close>

theorem possible_actions_nonempty:
  assumes s: "0 \<le> s" "s \<le> 35"
  shows "get_possible_actions s \<noteq> [] \<and>
         set (get_possible_actions s) = {a. get_next_state s a \<noteq> s} \<and>
         (\<forall>Q st st'. current_state_index st = s \<longrightarrow>
            greedy_body get_possible_actions Q st \<noteq> Inr (Break st')) \<and>
         (\<forall>Q st st'. current_state_index st = s \<longrightarrow>
            greedy_loop get_possible_actions Q st = Some (Inr st') \<longrightarrow> stdout st' = stdout st) \<and>
         mc_possible_actions (decode s) \<noteq> [] \<and>
         (\<forall>g. \<exists>p'. get_next_state_mc (decode s) g = Inr (p', snd (next_draw g)) \<and>
                 p' \<noteq> decode s \<and> in_grid p')"
proof -
  note grid = decode_in_grid[OF s]
  have "get_possible_actions s \<noteq> []" using get_possible_actions_sorted by blast
  moreover note get_possible_actions_set[OF s]
  moreover have "\<forall>Q st st'. current_state_index st = s \<longrightarrow>
            greedy_body get_possible_actions Q st \<noteq> Inr (Break st')"
    using greedy_body_no_break by blast
  moreover have "\<forall>Q st st'. current_state_index st = s \<longrightarrow>
            greedy_loop get_possible_actions Q st = Some (Inr st') \<longrightarrow> stdout st' = stdout st"
    using greedy_loop_no_abort by blast
  moreover note mc_possible_nonempty[OF grid]
  moreover have "\<forall>g. \<exists>p'. get_next_state_mc (decode s) g = Inr (p', snd (next_draw g)) \<and>
                 p' \<noteq> decode s \<and> in_grid p'"
    using get_next_state_mc_in_grid[OF grid] by blast
  ultimately show ?thesis by blast
qed

theorem possible_actions_nonempty_witness:
  "get_possible_actions 0 \<noteq> [] \<and> {a. get_next_state 0 a \<noteq> 0} = {1, 3} \<and>
   mc_possible_actions (decode 0) \<noteq> []"
proof -
  have "get_possible_actions 0 = [1, 3]" by (simp add: get_possible_actions_def)
  with possible_actions_nonempty [of 0] show ?thesis by auto
qed

section \<open>Properties of selection and training\<close>

lemma py_max_Max:
  fixes x :: "'a::linorder"
  shows "py_max (x # xs) = Inr (Max (set (x # xs)))"
proof -
  have "(\<lambda>item m. if item > m then item else m) = (max :: 'a \<Rightarrow> 'a \<Rightarrow> 'a)"
    by (auto simp add: fun_eq_iff max_def)
  then show ?thesis by (simp only: py_max_def list.case Max.set_eq_fold)
qed

lemma row4:
  assumes "length (q_row :: real list) = 4"
  obtains q0 q1 q2 q3 where "q_row = [q0, q1, q2, q3]"
proof -
  from assms obtain q0 r1 where 1: "q_row = q0 # r1" "length r1 = 3" by (cases q_row) auto
  then obtain q1 r2 where 2: "r1 = q1 # r2" "length r2 = 2" by (cases r1) auto
  then obtain q2 r3 where 3: "r2 = q2 # r3" "length r3 = 1" by (cases r2) auto
  then obtain q3 where 4: "r3 = [q3]" by (cases r3) auto
  from 1 2 3 4 that show ?thesis by blast
qed

lemma random_uniform_unit:
  "0 \<le> fst (random_uniform 0 1 g) \<and> fst (random_uniform 0 1 g) < 1 \<and>
   snd (random_uniform 0 1 g) = snd (next_draw g)"
proof -
  define k where "k = fst (next_draw g) mod 2 ^ 53"
  have "k < 2 ^ 53" unfolding k_def by simp
  then have "real k < real (2 ^ 53)" by (simp only: of_nat_less_iff)
  then have "real k / 2 ^ 53 < 1" by simp
  moreover have "0 \<le> real k / 2 ^ 53" by simp
  moreover have "random_uniform 0 1 g = (real k / 2 ^ 53, snd (next_draw g))"
    by (simp add: random_uniform_def split_def k_def Let_def)
  ultimately show ?thesis by simp
qed

lemma random_choice_elem:
  "seq \<noteq> [] \<Longrightarrow> \<exists>x. random_choice seq g = Inr (x, snd (next_draw g)) \<and> x \<in> set seq"
  by (simp add: random_choice_def next_draw_def)

text \<open>The actions that attain the maximum of a row of four values.\<close>

lemma best_actions_props:
  assumes len: "length (q_row :: real list) = 4"
  shows "[int action. (action, q) \<leftarrow> enumerate 0 q_row, q = Max (set q_row)] \<noteq> [] \<and>
         (\<forall>a \<in> set [int action. (action, q) \<leftarrow> enumerate 0 q_row, q = Max (set q_row)].
             0 \<le> a \<and> a \<le> 3 \<and> q_row ! nat a = Max (set q_row))"
proof -
  from len obtain q0 q1 q2 q3 where r: "q_row = [q0, q1, q2, q3]" by (rule row4)
  have m: "Max (set q_row) \<in> set q_row" unfolding r by (rule Max_in) simp_all
  define M where "M = Max (set q_row)"
  from m have "M = q0 \<or> M = q1 \<or> M = q2 \<or> M = q3" unfolding M_def r by auto
  then show ?thesis unfolding M_def[symmetric] r
    by (auto simp add: enumerate_eq_zip upt_rec)
qed

lemma get_next_state_eg_result:
  assumes wf: "wf_Q Q" and s: "0 \<le> s" "s \<le> 35"
  shows "\<exists>a g'. get_next_state_eg Q s epsilon g = Inr (get_next_state s a, a, g') \<and>
           0 \<le> a \<and> a \<le> 3 \<and>
           (\<not> fst (random_uniform 0 1 g) < epsilon \<longrightarrow>
              Q ! nat s ! nat a = Max (set (Q ! nat s)))"
proof -
  note row = wf_Q_row[OF wf s]
  obtain u g1 where u: "random_uniform 0 1 g = (u, g1)" by (cases "random_uniform 0 1 g")
  show ?thesis
  proof (cases "u < epsilon")
    case True
    from random_choice_elem[of "[0, 1, 2, 3 :: int]" g1] obtain a where
      a: "random_choice [0, 1, 2, 3 :: int] g1 = Inr (a, snd (next_draw g1))" "a \<in> set [0, 1, 2, 3]"
      by auto
    have "get_next_state_eg Q s epsilon g = Inr (get_next_state s a, a, snd (next_draw g1))"
      using u True a(1) by (simp add: get_next_state_eg_def bindE_def)
    with a(2) u True show ?thesis by auto
  next
    case False
    from row(2) obtain q0 qs where q: "Q ! nat s = q0 # qs" by (cases "Q ! nat s") auto
    have mx: "py_max (Q ! nat s) = Inr (Max (set (Q ! nat s)))"
      unfolding q by (rule py_max_Max)
    let ?best = "[int action. (action, q) \<leftarrow> enumerate 0 (Q ! nat s), q = Max (set (Q ! nat s))]"
    note b = best_actions_props[OF row(2)]
    from b random_choice_elem[of ?best g1] obtain a where
      a: "random_choice ?best g1 = Inr (a, snd (next_draw g1))" "a \<in> set ?best"
      by blast
    have "get_next_state_eg Q s epsilon g = Inr (get_next_state s a, a, snd (next_draw g1))"
      using u False a(1) b row(1) mx by (simp add: get_next_state_eg_def bindE_def)
    moreover from a(2) b have "0 \<le> a \<and> a \<le> 3 \<and> Q ! nat s ! nat a = Max (set (Q ! nat s))"
      by blast
    ultimately show ?thesis by blast
  qed
qed

lemma q_step_result:
  assumes wf: "wf_Q Q" and s: "0 \<le> s" "s \<le> 35"
      and eg: "get_next_state_eg Q s epsilon g = Inr (nxt, a, g')"
      and a: "0 \<le> a" "a \<le> 3" and nxt: "0 \<le> nxt" "nxt \<le> 35"
  shows "q_step Q s epsilon alpha gamma g =
           Inr (Q[nat s := (Q ! nat s)[nat a := Q ! nat s ! nat a +
                   alpha * (of_int (cell_reward (decode nxt)) + gamma * Max (set (Q ! nat nxt))
                            - Q ! nat s ! nat a)]], nxt, g')"
proof -
  note row = wf_Q_row[OF wf s]
  note nrow = wf_Q_row[OF wf nxt]
  from nrow(2) obtain q0 qs where q: "Q ! nat nxt = q0 # qs" by (cases "Q ! nat nxt") auto
  have mx: "py_max (Q ! nat nxt) = Inr (Max (set (Q ! nat nxt)))"
    unfolding q by (rule py_max_Max)
  have ne: "Q ! nat nxt \<noteq> []" using q by simp
  have r: "R_at (nxt div 6, nxt mod 6) = Inr (cell_reward (decode nxt))"
    using nxt by (rule R_at_decode)
  have cell: "py_nth (Q ! nat s) a = Inr (Q ! nat s ! nat a)"
    using a row(2) by (simp add: py_nth_def)
  have set_cell: "py_set (Q ! nat s) a v = Inr ((Q ! nat s)[nat a := v])" for v
    using a row(2) by (simp add: py_set_def)
  have set_row: "py_set Q s v = Inr (Q[nat s := v])" for v
    using s wf by (simp add: py_set_def wf_Q_def)
  show ?thesis
    unfolding q_step_def
    by (simp add: eg bindE_def r nrow(1) ne mx row(1) cell set_cell set_row Let_def)
qed

lemma next_draw_tape4: "next_draw tape4 = (4, tape4)"
  by (simp add: next_draw_def tape4_def)

lemma random_tape4:
  "random_uniform 0 1 tape4 = (4 / 2 ^ 53, tape4)"
  "random_choice [0, 1, 2, 3 :: int] tape4 = Inr (0, tape4)"
  by (simp_all add: random_uniform_def random_choice_def next_draw_tape4)

lemma wf_Q_example: "wf_Q Q_example"
  unfolding Q_example_def by (intro wf_Q_update wf_Q_init) simp_all

lemma Q_example_rows:
  "Q_example ! 3 = [20, 5, 0, 0]" "Q_example ! 9 = [4, 0, 0, 0]"
  "Q_example ! nat 3 = [20, 5, 0, 0]" "Q_example ! nat 9 = [4, 0, 0, 0]"
  by (simp_all add: Q_example_def Q_matrix_init_def)

text \<open>
  Claim C1. A training step from a state index in 0..35 of a 36 by 4 table chooses an
  action a, enters the state s' it leads to, and returns the table in which the entry of
  (s, a) alone has changed, to Q[s, a] + alpha * (r + gamma * m - Q[s, a]), where r is the
  reward of the cell of s' and m the greatest of the four values of s' in the table before
  the step. With r = 10, gamma = 0.9, alpha = 0.5 and m = 20 that is
  Q[s, a] + 0.5 * (10 + 0.9 * 20 - Q[s, a]).
\<close>

theorem q_step_update:
  assumes wf: "wf_Q Q" and s: "0 \<le> s" "s \<le> 35"
  shows "\<exists>a nxt g' Q'.
           get_next_state_eg Q s epsilon g = Inr (nxt, a, g') \<and>
           nxt = get_next_state s a \<and> 0 \<le> a \<and> a \<le> 3 \<and>
           q_step Q s epsilon alpha gamma g = Inr (Q', nxt, g') \<and>
           Q' = Q[nat s := (Q ! nat s)[nat a := Q ! nat s ! nat a +
                   alpha * (of_int (cell_reward (decode nxt)) + gamma * Max (set (Q ! nat nxt))
                            - Q ! nat s ! nat a)]] \<and>
           Q' ! nat s ! nat a =
             Q ! nat s ! nat a +
               alpha * (of_int (cell_reward (decode nxt)) + gamma * Max (set (Q ! nat nxt))
                        - Q ! nat s ! nat a) \<and>
           (\<forall>s' a'. (s', a') \<noteq> (nat s, nat a) \<longrightarrow> Q' ! s' ! a' = Q ! s' ! a') \<and>
           (cell_reward (decode nxt) = 10 \<and> gamma = 9 / 10 \<and> alpha = 1 / 2 \<and>
              Max (set (Q ! nat nxt)) = 20 \<longrightarrow>
              Q' ! nat s ! nat a =
                Q ! nat s ! nat a + 1 / 2 * (10 + 9 / 10 * 20 - Q ! nat s ! nat a))"
proof -
  from get_next_state_eg_result[OF wf s, of epsilon g] obtain a g' where
    eg: "get_next_state_eg Q s epsilon g = Inr (get_next_state s a, a, g')" and a: "0 \<le> a" "a \<le> 3"
    by blast
  define nxt where "nxt = get_next_state s a"
  have nxt: "0 \<le> nxt" "nxt \<le> 35" using get_next_state_range[OF s, of a] by (simp_all add: nxt_def)
  define new where "new = Q ! nat s ! nat a +
                   alpha * (of_int (cell_reward (decode nxt)) + gamma * Max (set (Q ! nat nxt))
                            - Q ! nat s ! nat a)"
  define Q' where "Q' = Q[nat s := (Q ! nat s)[nat a := new]]"
  have step: "q_step Q s epsilon alpha gamma g = Inr (Q', nxt, g')"
    using q_step_result[OF wf s eg[folded nxt_def] a nxt] by (simp add: Q'_def new_def)
  have ls: "nat s < length Q" using wf s by (simp add: wf_Q_def)
  have la: "nat a < length (Q ! nat s)" using wf_Q_row(2)[OF wf s] a by simp
  have cell: "Q' ! nat s ! nat a = new" using ls la by (simp add: Q'_def)
  have other: "Q' ! s' ! a' = Q ! s' ! a'" if "(s', a') \<noteq> (nat s, nat a)" for s' a'
  proof (cases "s' = nat s")
    case True
    with that have "a' \<noteq> nat a" by simp
    with True ls show ?thesis by (simp add: Q'_def)
  next
    case False
    then show ?thesis by (simp add: Q'_def)
  qed
  have inst: "cell_reward (decode nxt) = 10 \<and> gamma = 9 / 10 \<and> alpha = 1 / 2 \<and>
              Max (set (Q ! nat nxt)) = 20 \<longrightarrow>
              Q' ! nat s ! nat a =
                Q ! nat s ! nat a + 1 / 2 * (10 + 9 / 10 * 20 - Q ! nat s ! nat a)"
  proof (intro impI, elim conjE)
    assume r: "cell_reward (decode nxt) = 10" and g: "gamma = 9 / 10" and al: "alpha = 1 / 2"
      and m: "Max (set (Q ! nat nxt)) = 20"
    show "Q' ! nat s ! nat a =
                Q ! nat s ! nat a + 1 / 2 * (10 + 9 / 10 * 20 - Q ! nat s ! nat a)"
      unfolding cell new_def r g al m by simp
  qed
  show ?thesis
    apply (rule exI[of _ a], rule exI[of _ nxt], rule exI[of _ g'], rule exI[of _ Q'])
    using eg a step cell other inst
    unfolding nxt_def[symmetric]
    apply (intro conjI)
            apply (simp_all add: nxt_def Q'_def new_def)
    done
qed

lemma get_next_state_9_up: "get_next_state 9 0 = 3"
  using get_next_state_rc[of 3 1 0] by simp

lemma get_next_state_eg_example:
  "get_next_state_eg Q_example 9 1 tape4 = Inr (3, 0, tape4)"
  by (simp add: get_next_state_eg_def random_tape4 bindE_def get_next_state_9_up)

lemma cell_reward_0_3: "cell_reward (decode 3) = 10"
  by (simp add: cell_reward_def decode_def R_matrix_val)

theorem q_step_update_witness:
  "\<exists>Q'. q_step Q_example 9 1 (1 / 2) (9 / 10) tape4 = Inr (Q', 3, tape4) \<and>
         Q' ! 9 ! 0 = 16 \<and> Q' ! 9 ! 1 = Q_example ! 9 ! 1 \<and> Q' ! 3 ! 0 = Q_example ! 3 ! 0"
proof -
  have range: "(0::int) \<le> 9" "(9::int) \<le> 35" by simp_all
  from q_step_update [OF wf_Q_example range, of 1 tape4 "1 / 2" "9 / 10"]
  obtain a nxt g' Q' where
    eg: "get_next_state_eg Q_example 9 1 tape4 = Inr (nxt, a, g')"
    and step: "q_step Q_example 9 1 (1 / 2) (9 / 10) tape4 = Inr (Q', nxt, g')"
    and cell: "Q' ! nat 9 ! nat a =
             Q_example ! nat 9 ! nat a +
               1 / 2 * (of_int (cell_reward (decode nxt)) + 9 / 10 * Max (set (Q_example ! nat nxt))
                        - Q_example ! nat 9 ! nat a)"
    and other: "\<forall>s' a'. (s', a') \<noteq> (nat 9, nat a) \<longrightarrow> Q' ! s' ! a' = Q_example ! s' ! a'"
    by blast
  from eg have v: "nxt = 3" "a = 0" "g' = tape4" by (simp_all add: get_next_state_eg_example)
  have "Q' ! 9 ! 0 = 16"
    using cell unfolding v by (simp add: Q_example_rows cell_reward_0_3)
  moreover have "Q' ! 9 ! 1 = Q_example ! 9 ! 1" "Q' ! 3 ! 0 = Q_example ! 3 ! 0"
    using other unfolding v by simp_all
  ultimately show ?thesis using step unfolding v by blast
qed

text \<open>
  Claim C6. With epsilon = 0, when one action has a strictly greater value than the three
  others in the row of the current state, selection returns that action and the state it
  leads to whatever the random source: on any two tapes the action and the next state are
  the same.
\<close>

theorem epsilon_zero_selects_argmax:
  assumes wf: "wf_Q Q" and s: "0 \<le> s" "s \<le> 35" and a: "0 \<le> a" "a \<le> 3"
      and uniq: "\<forall>b. 0 \<le> b \<and> b \<le> 3 \<and> b \<noteq> a \<longrightarrow> Q ! nat s ! nat b < Q ! nat s ! nat a"
  shows "\<exists>g1' g2'.
           get_next_state_eg Q s 0 g1 = Inr (get_next_state s a, a, g1') \<and>
           get_next_state_eg Q s 0 g2 = Inr (get_next_state s a, a, g2')"
proof -
  have one: "\<exists>g'. get_next_state_eg Q s 0 g = Inr (get_next_state s a, a, g')" for g
  proof -
    from get_next_state_eg_result[OF wf s, of 0 g] obtain c g' where
      c: "get_next_state_eg Q s 0 g = Inr (get_next_state s c, c, g')" "0 \<le> c" "c \<le> 3"
         "\<not> fst (random_uniform 0 1 g) < 0 \<longrightarrow> Q ! nat s ! nat c = Max (set (Q ! nat s))"
      by blast
    from random_uniform_unit[of g] c(4) have mx: "Q ! nat s ! nat c = Max (set (Q ! nat s))"
      by simp
    have "nat a < length (Q ! nat s)" using wf_Q_row(2)[OF wf s] a by simp
    then have "Q ! nat s ! nat a \<in> set (Q ! nat s)" by (rule nth_mem)
    then have "Q ! nat s ! nat a \<le> Q ! nat s ! nat c" unfolding mx by simp
    with uniq c(2,3) have "c = a" by force
    with c(1) show ?thesis by blast
  qed
  from one[of g1] one[of g2] show ?thesis by blast
qed

theorem epsilon_zero_selects_argmax_witness:
  "\<exists>g1' g2'.
     get_next_state_eg Q_example 9 0 tape4 = Inr (3, 0, g1') \<and>
     get_next_state_eg Q_example 9 0 (tape_of []) = Inr (3, 0, g2')"
proof -
  have range: "(0::int) \<le> 9" "(9::int) \<le> 35" "(0::int) \<le> 0" "(0::int) \<le> 3" by simp_all
  have uniq: "\<forall>b. 0 \<le> b \<and> b \<le> 3 \<and> b \<noteq> 0 \<longrightarrow>
      Q_example ! nat 9 ! nat b < Q_example ! nat 9 ! nat (0::int)"
  proof (intro allI impI)
    fix b :: int
    assume "0 \<le> b \<and> b \<le> 3 \<and> b \<noteq> 0"
    then have "b = 1 \<or> b = 2 \<or> b = 3" by auto
    then show "Q_example ! nat 9 ! nat b < Q_example ! nat 9 ! nat (0::int)"
      unfolding Q_example_rows by auto
  qed
  from epsilon_zero_selects_argmax [OF wf_Q_example range uniq, of tape4 "tape_of []"]
  show ?thesis by (simp add: get_next_state_9_up)
qed

end
